theory Spec2Isabelle
  imports Main "HOL-Library.Word" "HOL-Library.Multiset" "HOL-Library.List_Lexorder"
    "HOL-Library.Char_ord" "HOL-Library.Product_Lexorder" "HOL-Library.Mapping"
    "HOL-Library.AList_Mapping"
begin

unbundle bit_operations_syntax

section \<open>The consistent hashring (hashring/hashring.go)\<close>

subsection \<open>Data model\<close>

text \<open>
  A Go \<open>Member\<close> is an interface value with a \<open>Key()\<close> method. A member is
  modelled by the string its \<open>Key()\<close> returns together with the rest of the value
  (for the balancer: the sub-connection handle).
\<close>

datatype 'a Member = Member (Key: string) (val: 'a)

text \<open>
  \<open>nodeRecord\<close> and \<open>virtualNode\<close> refer to each other: a virtual node holds a copy
  of its owner's record as it was when the virtual node was built. The fields
  \<open>hashvalue\<close> and \<open>virtualNodes\<close> of \<open>nodeRecord\<close> are \<open>nr_hashvalue\<close> and
  \<open>nr_virtualNodes\<close> here, since \<open>virtualNode\<close> and \<open>Ring\<close> have fields of the same
  names.
\<close>

datatype 'a nodeRecord =
  NodeRecord (nr_hashvalue: "64 word") (nodeKey: string) (member: "'a Member")
    (nr_virtualNodes: "'a virtualNode list")
and 'a virtualNode =
  VirtualNode (hashvalue: "64 word") (members: "'a nodeRecord")

type_synonym byte = "8 word"
type_synonym HashFunc = "byte list \<Rightarrow> 64 word"

record 'a Ring =
  hashfn :: HashFunc
  replicationFactor :: "16 word"
  nodes :: "(string, 'a nodeRecord) mapping"
  virtualNodes :: "'a virtualNode list"

text \<open>
  The error values of the package. \<open>Remove\<close> wraps \<open>ErrVnodeNotFound\<close> in a message
  that names the virtual node (its hash, its owner's hash and key).
  \<open>PanicIndexOutOfRange\<close> stands for the run-time panic of a slice access out of range.
\<close>

datatype error =
  ErrMemberAlreadyExists
  | ErrMemberNotFound
  | ErrNotEnoughMembers
  | ErrInvalidReplicationFactor
  | ErrVnodeNotFound "64 word" "64 word" string
  | ErrUnexpectedVnodeCount
  | PanicIndexOutOfRange

subsection \<open>Library functions the ring calls\<close>

text \<open>\<open>[]byte(s)\<close>: the bytes of a string.\<close>

definition bytes_of :: "string \<Rightarrow> byte list" where
  "bytes_of s = map (\<lambda>c. of_char c) s"

text \<open>
  \<open>binary.LittleEndian.PutUint64(b, v)\<close> writes \<open>byte(v >> 8*k)\<close> to \<open>b[k]\<close> for
  \<open>k = 0..7\<close>; \<open>PutUint16\<close> does the same for two bytes. Both are only called on
  slices that are long enough.
\<close>

definition PutUint64 :: "byte list \<Rightarrow> 64 word \<Rightarrow> byte list" where
  "PutUint64 b v =
     b[0 := ucast v, 1 := ucast (drop_bit 8 v), 2 := ucast (drop_bit 16 v),
       3 := ucast (drop_bit 24 v), 4 := ucast (drop_bit 32 v), 5 := ucast (drop_bit 40 v),
       6 := ucast (drop_bit 48 v), 7 := ucast (drop_bit 56 v)]"

definition PutUint16 :: "byte list \<Rightarrow> 16 word \<Rightarrow> byte list" where
  "PutUint16 b v = b[0 := ucast v, 1 := ucast (drop_bit 8 v)]"

text \<open>
  \<open>sort.Search(n, f)\<close>: the binary search of the standard library,
  \<open>i, j := 0, n; for i < j { h := (i+j)/2; if !f(h) { i = h+1 } else { j = h } }; return i\<close>.
\<close>

function Search_loop :: "(nat \<Rightarrow> bool) \<Rightarrow> nat \<Rightarrow> nat \<Rightarrow> nat" where
  "Search_loop f i j =
     (if i < j then
        (let h = (i + j) div 2 in
         if \<not> f h then Search_loop f (h + 1) j else Search_loop f i h)
      else i)"
  by pat_completeness auto
termination
  by (relation "measure (\<lambda>(f, i, j). j - i)") auto

declare Search_loop.simps [simp del]

definition Search :: "nat \<Rightarrow> (nat \<Rightarrow> bool) \<Rightarrow> nat" where
  "Search n f = Search_loop f 0 n"

text \<open>
  \<open>strings.Compare(a, b)\<close>: byte-wise lexicographic comparison, a proper prefix being
  smaller.
\<close>

fun strings_Compare :: "string \<Rightarrow> string \<Rightarrow> int" where
  "strings_Compare [] [] = 0"
| "strings_Compare [] (b # bs) = - 1"
| "strings_Compare (a # as) [] = 1"
| "strings_Compare (a # as) (b # bs) =
     (if (of_char a :: nat) < of_char b then - 1
      else if (of_char b :: nat) < of_char a then 1
      else strings_Compare as bs)"

text \<open>
  \<open>slices.SortFunc(s, cmp)\<close> sorts in place. The library sorts short slices by
  insertion, each element moving left while it compares smaller than its left neighbour;
  the model is this insertion sort. Any sorting algorithm gives the same result on a slice
  whose elements are pairwise different under the comparison (lemma \<open>SortFunc_unique\<close>).
\<close>

fun insertCmp :: "('v \<Rightarrow> 'v \<Rightarrow> int) \<Rightarrow> 'v \<Rightarrow> 'v list \<Rightarrow> 'v list" where
  "insertCmp cmp x [] = [x]"
| "insertCmp cmp x (y # ys) =
     (if cmp x y < 0 then x # y # ys else y # insertCmp cmp x ys)"

definition SortFunc :: "'v list \<Rightarrow> ('v \<Rightarrow> 'v \<Rightarrow> int) \<Rightarrow> 'v list" where
  "SortFunc s cmp = foldl (\<lambda>acc x. insertCmp cmp x acc) [] s"

subsection \<open>Ordering of virtual nodes\<close>

definition compareUint64 :: "64 word \<Rightarrow> 64 word \<Rightarrow> int" where
  "compareUint64 x y = (if x < y then - 1 else if x > y then 1 else 0)"

definition cmpVnode :: "'a virtualNode \<Rightarrow> 'a virtualNode \<Rightarrow> int" where
  "cmpVnode a b =
     (if hashvalue a = hashvalue b then
        (if nr_hashvalue (members a) = nr_hashvalue (members b) then
           strings_Compare (nodeKey (members a)) (nodeKey (members b))
         else compareUint64 (nr_hashvalue (members a)) (nr_hashvalue (members b)))
      else compareUint64 (hashvalue a) (hashvalue b))"

subsection \<open>New\<close>

definition New :: "HashFunc \<Rightarrow> 16 word \<Rightarrow> error + 'a Ring" where
  "New hashfn' replicationFactor' =
     (if replicationFactor' < 1 then Inl ErrInvalidReplicationFactor
      else Inr \<lparr>hashfn = hashfn', replicationFactor = replicationFactor',
                nodes = Mapping.empty, virtualNodes = []\<rparr>)"

subsection \<open>Add\<close>

text \<open>
  The loop of \<open>Add\<close>: \<open>for i := uint16(0); i < h.replicationFactor; i++\<close>. Its state is
  the buffer, the record being built and the ring's slice of virtual nodes. Each virtual
  node takes a copy of the record as it is at that moment.
\<close>

function Add_loop ::
  "HashFunc \<Rightarrow> 16 word \<Rightarrow> 16 word \<Rightarrow> byte list \<Rightarrow> 'a nodeRecord \<Rightarrow> 'a virtualNode list
     \<Rightarrow> 'a nodeRecord \<times> 'a virtualNode list" where
  "Add_loop hf rf i buf newNodeRecord vnodes =
     (if i < rf then
        (let buf' = take 8 buf @ PutUint16 (drop 8 buf) i;
             virtualNodeHash = hf buf';
             virtualNode = VirtualNode virtualNodeHash newNodeRecord;
             newNodeRecord' = NodeRecord (nr_hashvalue newNodeRecord) (nodeKey newNodeRecord)
               (member newNodeRecord) (nr_virtualNodes newNodeRecord @ [virtualNode])
         in Add_loop hf rf (i + 1) buf' newNodeRecord' (vnodes @ [virtualNode]))
      else (newNodeRecord, vnodes))"
  by pat_completeness auto
termination
proof (relation "measure (\<lambda>(hf, rf, i, buf, r, vs). unat rf - unat i)")
  show "wf (measure (\<lambda>(hf, rf, i, buf, r, vs). unat rf - unat i))" by simp
next
  fix hf :: HashFunc and rf i :: "16 word" and buf :: "byte list"
    and newNodeRecord :: "'a nodeRecord" and vnodes :: "'a virtualNode list"
    and x xa xb xc
  assume lt: "i < rf"
  then have a: "unat i < unat rf"
    by (simp add: word_less_nat_alt)
  have b: "unat rf < 2 ^ 16"
    using unsigned_less [of rf, where 'a = nat] by simp
  have "unat (i + 1) = (unat i + 1) mod 2 ^ 16"
    by (simp add: unat_word_ariths)
  with a b have "unat (i + 1) = Suc (unat i)"
    by simp
  with a
  show "((hf, rf, i + 1, x, xc, vnodes @ [xb]), (hf, rf, i, buf, newNodeRecord, vnodes))
      \<in> measure (\<lambda>(hf, rf, i, buf, r, vs). unat rf - unat i)"
    by simp
qed

declare Add_loop.simps [simp del]

definition Add :: "'a Ring \<Rightarrow> 'a Member \<Rightarrow> 'a Ring \<times> error option" where
  "Add h m =
     (let nodeKeyString = Key m;
          nodeHash = hashfn h (bytes_of nodeKeyString);
          newNodeRecord = NodeRecord nodeHash nodeKeyString m []
      in if Mapping.lookup (nodes h) nodeKeyString \<noteq> None then (h, Some ErrMemberAlreadyExists)
         else
           (let virtualNodeBuffer = PutUint64 (replicate 10 0) nodeHash;
                (newNodeRecord', vnodes) =
                   Add_loop (hashfn h) (replicationFactor h) 0 virtualNodeBuffer
                     newNodeRecord (virtualNodes h)
            in (h\<lparr>virtualNodes := SortFunc vnodes cmpVnode,
                   nodes := Mapping.update nodeKeyString newNodeRecord' (nodes h)\<rparr>, None)))"

subsection \<open>Remove\<close>

text \<open>
  The first loop of \<open>Remove\<close> looks every virtual node of the found record up in the
  ring's slice by binary search and collects the indexes; an index past the end is the
  error \<open>ErrVnodeNotFound\<close>, returned at once.
\<close>

fun Remove_search ::
  "'a virtualNode list \<Rightarrow> 'a virtualNode list \<Rightarrow> nat list \<Rightarrow> error + nat list" where
  "Remove_search vs [] indexesToRemove = Inr indexesToRemove"
| "Remove_search vs (vnode # rest) indexesToRemove =
     (let vnodeIndex = Search (length vs) (\<lambda>i. cmpVnode (vs ! i) vnode \<ge> 0)
      in if vnodeIndex \<ge> length vs then
           Inl (ErrVnodeNotFound (hashvalue vnode) (nr_hashvalue (members vnode))
                  (nodeKey (members vnode)))
         else Remove_search vs rest (indexesToRemove @ [vnodeIndex]))"

text \<open>
  The second loop, \<open>for i, indexToRemove := range indexesToRemove\<close>, overwrites the
  slot at each index with the slot \<open>i\<close> places before the end. It is only run when no
  access can leave the slice (see \<open>Remove\<close>).
\<close>

fun Remove_swap :: "'a virtualNode list \<Rightarrow> nat \<Rightarrow> nat list \<Rightarrow> 'a virtualNode list" where
  "Remove_swap vs i [] = vs"
| "Remove_swap vs i (indexToRemove # rest) =
     Remove_swap (vs[indexToRemove := vs ! (length vs - 1 - i)]) (i + 1) rest"

text \<open>
  \<open>sort.Slice\<close> with the reversed comparison leaves the indexes in descending order.
  The slot read in round \<open>i\<close> is \<open>len - 1 - i\<close> and the slice is cut to
  \<open>len - len(indexesToRemove)\<close>: both panic exactly when there are more indexes than
  virtual nodes, which the model returns as \<open>PanicIndexOutOfRange\<close>.
\<close>

definition Remove :: "'a Ring \<Rightarrow> 'a Member \<Rightarrow> 'a Ring \<times> error option" where
  "Remove h m =
     (let nodeKeyString = Key m in
      case Mapping.lookup (nodes h) nodeKeyString of
        None \<Rightarrow> (h, Some ErrMemberNotFound)
      | Some foundNode \<Rightarrow>
          (case Remove_search (virtualNodes h) (nr_virtualNodes foundNode) [] of
             Inl e \<Rightarrow> (h, Some e)
           | Inr found \<Rightarrow>
               (let indexesToRemove = rev (sort found) in
                if length indexesToRemove \<noteq> unat (replicationFactor h) then
                  (h, Some ErrUnexpectedVnodeCount)
                else if length (virtualNodes h) < length indexesToRemove then
                  (h, Some PanicIndexOutOfRange)
                else
                  (let swapped = Remove_swap (virtualNodes h) 0 indexesToRemove;
                       truncated = take (length swapped - length indexesToRemove) swapped
                   in (h\<lparr>virtualNodes := SortFunc truncated cmpVnode,
                          nodes := Mapping.delete nodeKeyString (nodes h)\<rparr>, None)))))"

subsection \<open>FindN\<close>

text \<open>
  The loop of \<open>FindN\<close>:
  \<open>for i := 0; i < len(h.virtualNodes) && len(foundNodes) < int(num); i++\<close>.
\<close>

function FindN_loop ::
  "'a virtualNode list \<Rightarrow> nat \<Rightarrow> nat \<Rightarrow> nat \<Rightarrow> string set \<Rightarrow> 'a Member list
     \<Rightarrow> 'a Member list" where
  "FindN_loop vs vnodeIndex num i alreadyFoundNodeKeys foundNodes =
     (if i < length vs \<and> length foundNodes < num then
        (let boundedIndex = (i + vnodeIndex) mod length vs;
             candidate = vs ! boundedIndex
         in if nodeKey (members candidate) \<notin> alreadyFoundNodeKeys then
              FindN_loop vs vnodeIndex num (i + 1)
                (insert (nodeKey (members candidate)) alreadyFoundNodeKeys)
                (foundNodes @ [member (members candidate)])
            else FindN_loop vs vnodeIndex num (i + 1) alreadyFoundNodeKeys foundNodes)
      else foundNodes)"
  by pat_completeness auto
termination
  by (relation "measure (\<lambda>(vs, vnodeIndex, num, i, seen, found). length vs - i)") auto

declare FindN_loop.simps [simp del]

definition FindN :: "'a Ring \<Rightarrow> byte list \<Rightarrow> 8 word \<Rightarrow> error + 'a Member list" where
  "FindN h key num =
     (if unat num > Mapping.size (nodes h) then Inl ErrNotEnoughMembers
      else
        (let keyHash = hashfn h key;
             vnodeIndex = Search (length (virtualNodes h))
                            (\<lambda>i. hashvalue (virtualNodes h ! i) \<ge> keyHash)
         in Inr (FindN_loop (virtualNodes h) vnodeIndex (unat num) 0 {} [])))"

subsection \<open>Vocabulary for the properties of the ring\<close>

text \<open>
  The total order on virtual nodes, in the words of the specification: the hash of the
  virtual node ascending, then the hash of the owner's key ascending, then the owner's key
  in lexicographic byte order. Triples are compared lexicographically, words as unsigned
  numbers, strings byte by byte.
\<close>

definition orderKey :: "'a virtualNode \<Rightarrow> 64 word \<times> 64 word \<times> string" where
  "orderKey v = (hashvalue v, nr_hashvalue (members v), nodeKey (members v))"

text \<open>
  A sequence of calls on one ring. \<open>run\<close> performs them in order and carries on after
  a call that returned an error, as a caller that ignores the error does.
\<close>

datatype 'a call = CallAdd "'a Member" | CallRemove "'a Member"

fun step :: "'a Ring \<Rightarrow> 'a call \<Rightarrow> 'a Ring \<times> error option" where
  "step h (CallAdd m) = Add h m"
| "step h (CallRemove m) = Remove h m"

definition run :: "'a Ring \<Rightarrow> 'a call list \<Rightarrow> 'a Ring" where
  "run h cs = foldl (\<lambda>h c. fst (step h c)) h cs"

text \<open>The errors that the calls of such a sequence return, in order.\<close>

fun runErrors :: "'a Ring \<Rightarrow> 'a call list \<Rightarrow> error option list" where
  "runErrors h [] = []"
| "runErrors h (c # cs) = snd (step h c) # runErrors (fst (step h c)) cs"


text \<open>
  The little-endian encoding of a number in \<open>n\<close> bytes, as the specification describes
  the buffer of a virtual node: byte \<open>k\<close> holds the number divided by \<open>256 ^ k\<close>,
  reduced to a byte.
\<close>

definition le_bytes :: "nat \<Rightarrow> nat \<Rightarrow> byte list" where
  "le_bytes n v = map (\<lambda>k. of_nat (v div 256 ^ k)) [0..<n]"

text \<open>
  The facts that hold of every ring built by \<open>New\<close>, \<open>Add\<close> and \<open>Remove\<close>, used in
  the proofs below.
\<close>

definition ring_inv :: "'a Ring \<Rightarrow> bool" where
  "ring_inv h \<longleftrightarrow>
     1 \<le> unat (replicationFactor h)
     \<and> finite (Mapping.keys (nodes h))
     \<and> length (virtualNodes h) = Mapping.size (nodes h) * unat (replicationFactor h)
     \<and> sorted (map orderKey (virtualNodes h))
     \<and> (\<forall>k r. Mapping.lookup (nodes h) k = Some r \<longrightarrow>
           length (nr_virtualNodes r) = unat (replicationFactor h))"

text \<open>The virtual nodes that the loop of \<open>Add\<close> builds for a member, in loop order.\<close>

definition memberVnodes :: "HashFunc \<Rightarrow> 16 word \<Rightarrow> 'a Member \<Rightarrow> 'a virtualNode list" where
  "memberVnodes hf rf m =
     snd (Add_loop hf rf 0 (PutUint64 (replicate 10 0) (hf (bytes_of (Key m))))
            (NodeRecord (hf (bytes_of (Key m))) (Key m) m []) [])"


text \<open>
  The owners met on a walk over virtual nodes, each owner once, at its first virtual node:
  ``the distinct owning members in walk order''. \<open>seen\<close> holds the keys already met.
\<close>

fun distinctOwners :: "string set \<Rightarrow> 'a virtualNode list \<Rightarrow> 'a Member list" where
  "distinctOwners seen [] = []"
| "distinctOwners seen (v # vs) =
     (if nodeKey (members v) \<in> seen then distinctOwners seen vs
      else member (members v) # distinctOwners (insert (nodeKey (members v)) seen) vs)"

text \<open>
  A hash function gives the \<open>R\<close> virtual nodes of every member pairwise different hashes:
  no two of the member's buffers collide.
\<close>

definition vnodeHashesDistinct :: "HashFunc \<Rightarrow> 16 word \<Rightarrow> bool" where
  "vnodeHashesDistinct hf rf \<longleftrightarrow>
     (\<forall>key. inj_on (\<lambda>i. hf (le_bytes 8 (unat (hf (bytes_of key))) @ le_bytes 2 i)) {..< unat rf})"

text \<open>
  The stronger facts that hold of every ring built with such a hash function: no two
  virtual nodes compare equal, the virtual nodes of the ring with owner key \<open>k\<close> are
  exactly those that the record stored under \<open>k\<close> lists, and every owner key is a key
  of \<open>nodes\<close>.
\<close>

definition ring_ok :: "'a Ring \<Rightarrow> bool" where
  "ring_ok h \<longleftrightarrow>
     ring_inv h
     \<and> distinct (map orderKey (virtualNodes h))
     \<and> (\<forall>k r. Mapping.lookup (nodes h) k = Some r \<longrightarrow>
           distinct (nr_virtualNodes r)
           \<and> set (nr_virtualNodes r) = {v \<in> set (virtualNodes h). nodeKey (members v) = k})
     \<and> (\<forall>v \<in> set (virtualNodes h). nodeKey (members v) \<in> Mapping.keys (nodes h))"

text \<open>The multiset of the elements of a list at a set of indexes.\<close>

definition live :: "'v list \<Rightarrow> nat set \<Rightarrow> 'v multiset" where
  "live xs A = image_mset ((!) xs) (mset_set A)"

section \<open>The balancer (balancer.go)\<close>

subsection \<open>Data model\<close>

text \<open>
  The connectivity states of the RPC runtime, a resolver address (the two fields the
  balancer reads), and the balancer's configuration.
\<close>

datatype ConnState = Idle | Connecting | Ready | TransientFailure | Shutdown

type_synonym SubConn = nat

record Address =
  Addr :: string
  ServerName :: string

record BalancerConfig =
  ReplicationFactor :: "16 word"
  Spread :: "8 word"

text \<open>
  Errors at the level of the balancer: an error of the ring, an error made from a message
  (\<open>errors.New\<close>, \<open>fmt.Errorf\<close>), the two error values of the runtime that the balancer
  uses, the result of \<open>errors.Join\<close>, and a run-time panic.
\<close>

datatype berror =
  RingError error
  | ErrorString string
  | ErrBadResolverState
  | ErrNoSubConnAvailable
  | JoinError "berror list"
  | Panic string

text \<open>\<open>errors.Join\<close> drops the nil errors and returns nil when none is left.\<close>

definition errors_Join :: "berror option list \<Rightarrow> berror option" where
  "errors_Join errs =
     (let es = List.map_filter id errs in if es = [] then None else Some (JoinError es))"

text \<open>
  A picker is either the error picker of \<open>base.NewErrPicker\<close> or the balancer's own
  picker, which holds its spread and a pointer to the balancer's ring.
\<close>

datatype picker = ErrPicker "berror option" | HashringPicker "8 word"

text \<open>
  The runtime is seen through the calls the balancer makes on it, recorded in order.
  \<open>NewSubConn\<close> hands out a fresh handle, or fails for the addresses the runtime refuses.
\<close>

datatype event =
  NewSubConnCalled Address
  | RemoveSubConnCalled SubConn
  | UpdateStateCalled ConnState picker
  | ConnectCalled SubConn

record ClientConn =
  newSubConnError :: "Address \<Rightarrow> berror option"
  nextSubConn :: SubConn
  calls :: "event list"

definition NewSubConn :: "ClientConn \<Rightarrow> Address \<Rightarrow> ClientConn \<times> (berror + SubConn)" where
  "NewSubConn c addr =
     (case newSubConnError c addr of
        Some e \<Rightarrow> (c\<lparr>calls := calls c @ [NewSubConnCalled addr]\<rparr>, Inl e)
      | None \<Rightarrow> (c\<lparr>calls := calls c @ [NewSubConnCalled addr],
                     nextSubConn := nextSubConn c + 1\<rparr>, Inr (nextSubConn c)))"

definition called :: "ClientConn \<Rightarrow> event \<Rightarrow> ClientConn" where
  "called c e = c\<lparr>calls := calls c @ [e]\<rparr>"

text \<open>
  The fields of \<open>ringBalancer\<close>. The state evaluator belongs to the runtime's library:
  its state is the type parameter, and its \<open>RecordTransition\<close> is a parameter of the
  operations that call it. \<open>subConns\<close> is the address map, in the order in which its
  keys are enumerated.
\<close>

record 'e ringBalancer =
  state :: ConnState
  cc :: ClientConn
  picker :: picker
  csEvltr :: 'e
  subConns :: "(Address \<times> SubConn) list"
  scStates :: "SubConn \<rightharpoonup> ConnState"
  config :: "BalancerConfig option"
  hashring :: "SubConn Ring option"
  hasher :: HashFunc
  resolverErr :: "berror option"
  connErr :: "berror option"

record ClientConnState =
  Addresses :: "Address list"
  BalancerConfig :: "BalancerConfig option"

subsection \<open>Build and ResolverError\<close>

definition Build :: "HashFunc \<Rightarrow> ClientConn \<Rightarrow> 'e \<Rightarrow> 'e ringBalancer" where
  "Build hashfn' cc' evaluator =
     \<lparr>state = Connecting, cc = cc', picker = ErrPicker (Some ErrNoSubConnAvailable),
      csEvltr = evaluator, subConns = [], scStates = Map.empty, config = None,
      hashring = None, hasher = hashfn', resolverErr = None, connErr = None\<rparr>"

text \<open>\<open>b.cc.UpdateState(balancer.State{ConnectivityState: b.state, Picker: b.picker})\<close>\<close>

definition publish :: "'e ringBalancer \<Rightarrow> 'e ringBalancer" where
  "publish b = b\<lparr>cc := called (cc b) (UpdateStateCalled (state b) (picker b))\<rparr>"

definition ResolverError :: "'e ringBalancer \<Rightarrow> berror option \<Rightarrow> 'e ringBalancer" where
  "ResolverError b err =
     (let b1 = b\<lparr>resolverErr := err\<rparr>;
          b2 = (if length (subConns b1) = 0 then
                  b1\<lparr>state := TransientFailure,
                     picker := ErrPicker (errors_Join [connErr b1, resolverErr b1])\<rparr>
                else b1)
      in if state b2 \<noteq> TransientFailure then b2 else publish b2)"

subsection \<open>UpdateClientConnState\<close>

text \<open>\<open>MustNew\<close> panics where \<open>New\<close> returns an error.\<close>

definition MustNew :: "HashFunc \<Rightarrow> 16 word \<Rightarrow> berror + 'a Ring" where
  "MustNew hf rf =
     (case New hf rf of
        Inl e \<Rightarrow> Inl (Panic ''replication factor must be at least 1'')
      | Inr hr \<Rightarrow> Inr hr)"

text \<open>
  The first step: a new ring and the new configuration when there was no configuration
  or the replication factor changed.
\<close>

definition updateConfig :: "'e ringBalancer \<Rightarrow> BalancerConfig option \<Rightarrow> berror + 'e ringBalancer" where
  "updateConfig b cfg =
     (case cfg of
        None \<Rightarrow> Inr b
      | Some svcConfig \<Rightarrow>
          (if (case config b of None \<Rightarrow> True
               | Some c \<Rightarrow> ReplicationFactor svcConfig \<noteq> ReplicationFactor c)
           then (case MustNew (hasher b) (ReplicationFactor svcConfig) of
                   Inl p \<Rightarrow> Inl p
                 | Inr hr \<Rightarrow> Inr (b\<lparr>hashring := Some hr, config := Some svcConfig\<rparr>))
           else Inr b))"

text \<open>
  Any error of \<open>Add\<close> or \<open>Remove\<close> is answered with a new error of a fixed message
  (the same message in both loops); a panic inside the ring stays a panic.
\<close>

definition ringErr :: "error \<Rightarrow> berror" where
  "ringErr e =
     (if e = PanicIndexOutOfRange then Panic ''index out of range''
      else ErrorString ''couldn't add to hashring'')"

text \<open>
  The first loop, over the addresses of the new state. \<open>addrsSet\<close> collects every
  address seen. A new address gets a sub-connection (when the runtime refuses, the loop
  goes on with the next address), is recorded as \<open>Idle\<close>, is told to connect and is
  added to the ring; an error of \<open>Add\<close> ends the whole call.
\<close>

fun addAddresses ::
  "('e \<Rightarrow> ConnState \<Rightarrow> ConnState \<Rightarrow> 'e \<times> ConnState) \<Rightarrow> 'e ringBalancer \<Rightarrow> Address list
     \<Rightarrow> Address list \<Rightarrow> 'e ringBalancer \<times> Address list \<times> berror option" where
  "addAddresses rt b addrsSet [] = (b, addrsSet, None)"
| "addAddresses rt b addrsSet (addr # rest) =
     (let addrsSet' = addr # addrsSet in
      if map_of (subConns b) addr \<noteq> None then addAddresses rt b addrsSet' rest
      else
        (case NewSubConn (cc b) addr of
           (c, Inl err) \<Rightarrow> addAddresses rt (b\<lparr>cc := c\<rparr>) addrsSet' rest
         | (c, Inr sc) \<Rightarrow>
             (let b1 = b\<lparr>cc := c, subConns := AList.update addr sc (subConns b),
                         scStates := (scStates b)(sc \<mapsto> Idle)\<rparr>;
                  b2 = b1\<lparr>csEvltr := fst (rt (csEvltr b1) Shutdown Idle)\<rparr>;
                  b3 = b2\<lparr>cc := called (cc b2) (ConnectCalled sc)\<rparr>
              in case hashring b3 of
                   None \<Rightarrow> (b3, addrsSet', Some (Panic ''nil pointer dereference''))
                 | Some hr \<Rightarrow>
                     (case Add hr (Member (ServerName addr @ Addr addr) sc) of
                        (hr', Some e) \<Rightarrow> (b3\<lparr>hashring := Some hr'\<rparr>, addrsSet', Some (ringErr e))
                      | (hr', None) \<Rightarrow>
                          addAddresses rt (b3\<lparr>hashring := Some hr'\<rparr>) addrsSet' rest))))"

text \<open>
  The second loop, over the keys of \<open>subConns\<close> as they were when the loop began. An
  address that the new state does not list loses its sub-connection and its ring member;
  an error of \<open>Remove\<close> ends the whole call.
\<close>

fun removeAddresses ::
  "'e ringBalancer \<Rightarrow> Address list \<Rightarrow> Address list \<Rightarrow> 'e ringBalancer \<times> berror option" where
  "removeAddresses b addrsSet [] = (b, None)"
| "removeAddresses b addrsSet (addr # rest) =
     (case map_of (subConns b) addr of
        None \<Rightarrow> (b, Some (Panic ''interface conversion''))
      | Some sc \<Rightarrow>
          (if addr \<notin> set addrsSet then
             (let b1 = b\<lparr>cc := called (cc b) (RemoveSubConnCalled sc),
                         subConns := AList.delete addr (subConns b)\<rparr>
              in case hashring b1 of
                   None \<Rightarrow> (b1, Some (Panic ''nil pointer dereference''))
                 | Some hr \<Rightarrow>
                     (case Remove hr (Member (ServerName addr @ Addr addr) sc) of
                        (hr', Some e) \<Rightarrow> (b1\<lparr>hashring := Some hr'\<rparr>, Some (ringErr e))
                      | (hr', None) \<Rightarrow> removeAddresses (b1\<lparr>hashring := Some hr'\<rparr>) addrsSet rest))
           else removeAddresses b addrsSet rest))"

definition UpdateClientConnState ::
  "('e \<Rightarrow> ConnState \<Rightarrow> ConnState \<Rightarrow> 'e \<times> ConnState) \<Rightarrow> 'e ringBalancer \<Rightarrow> ClientConnState
     \<Rightarrow> 'e ringBalancer \<times> berror option" where
  "UpdateClientConnState rt b s =
     (let b0 = b\<lparr>resolverErr := None\<rparr> in
      case updateConfig b0 (BalancerConfig s) of
        Inl p \<Rightarrow> (b0, Some p)
      | Inr b1 \<Rightarrow>
          (if hashring b1 = None then
             (publish (b1\<lparr>picker := ErrPicker (errors_Join [connErr b1, resolverErr b1])\<rparr>),
              Some (ErrorString ''no hashring configured''))
           else
             (case addAddresses rt b1 [] (Addresses s) of
                (b2, addrsSet, Some e) \<Rightarrow> (b2, Some e)
              | (b2, addrsSet, None) \<Rightarrow>
                  (case removeAddresses b2 addrsSet (map fst (subConns b2)) of
                     (b3, Some e) \<Rightarrow> (b3, Some e)
                   | (b3, None) \<Rightarrow>
                       (if length (Addresses s) = 0 then
                          (ResolverError b3 (Some (ErrorString ''produced zero addresses'')),
                           Some ErrBadResolverState)
                        else if state b3 = TransientFailure then
                          (publish (b3\<lparr>picker :=
                             ErrPicker (errors_Join [connErr b3, resolverErr b3])\<rparr>), None)
                        else
                          (case config b3 of
                             None \<Rightarrow> (b3, Some (Panic ''nil pointer dereference''))
                           | Some c \<Rightarrow>
                               (publish (b3\<lparr>picker := HashringPicker (Spread c)\<rparr>), None)))))))"

subsection \<open>UpdateSubConnState\<close>

definition UpdateSubConnState ::
  "('e \<Rightarrow> ConnState \<Rightarrow> ConnState \<Rightarrow> 'e \<times> ConnState) \<Rightarrow> 'e ringBalancer \<Rightarrow> SubConn
     \<Rightarrow> ConnState \<Rightarrow> berror option \<Rightarrow> 'e ringBalancer" where
  "UpdateSubConnState rt b sc s connectionError =
     (case scStates b sc of
        None \<Rightarrow> b
      | Some oldS \<Rightarrow>
          (if oldS = TransientFailure \<and> (s = Connecting \<or> s = Idle) then
             (if s = Idle then b\<lparr>cc := called (cc b) (ConnectCalled sc)\<rparr> else b)
           else
             (let b1 = b\<lparr>scStates := (scStates b)(sc \<mapsto> s)\<rparr>;
                  b2 = (case s of
                          Idle \<Rightarrow> b1\<lparr>cc := called (cc b1) (ConnectCalled sc)\<rparr>
                        | Shutdown \<Rightarrow> b1\<lparr>scStates := (scStates b1)(sc := None)\<rparr>
                        | TransientFailure \<Rightarrow> b1\<lparr>connErr := connectionError\<rparr>
                        | _ \<Rightarrow> b1);
                  (ev, agg) = rt (csEvltr b2) oldS s;
                  b3 = b2\<lparr>csEvltr := ev, state := agg\<rparr>
              in publish b3)))"

subsection \<open>The picker\<close>

text \<open>
  Go's \<open>%\<close> on integers truncates towards zero: the remainder has the sign of the
  dividend.
\<close>

definition go_rem :: "int \<Rightarrow> int \<Rightarrow> int" where
  "go_rem a b = sgn a * (\<bar>a\<bar> mod \<bar>b\<bar>)"

text \<open>
  \<open>intn\<close>: the argument \<open>sum64\<close> is the value of \<open>new(maphash.Hash).Sum64()\<close>, the
  pseudo-random draw. \<open>int(...)\<close> reads the 64 bits as a signed number and \<open>-out\<close> is
  the negation of 64-bit arithmetic. \<open>Pick\<close> calls it with \<open>n > 1\<close> only.
\<close>

definition intn :: "64 word \<Rightarrow> 8 word \<Rightarrow> int" where
  "intn sum64 n =
     (let out = sum64;
          out' = (if sint out < 0 then - out else out)
      in go_rem (sint out') (uint n))"

text \<open>
  \<open>Pick\<close> on a picker with ring \<open>hr\<close> and spread \<open>spread\<close>. \<open>ctxValue\<close> is the value
  stored in the context under \<open>CtxKey\<close>, if any. Indexing the returned members outside
  their range panics.
\<close>

definition Pick :: "SubConn Ring \<Rightarrow> 8 word \<Rightarrow> 64 word \<Rightarrow> byte list option \<Rightarrow> berror + SubConn" where
  "Pick hr spread sum64 ctxValue =
     (case ctxValue of
        None \<Rightarrow> Inl (Panic ''interface conversion'')
      | Some key \<Rightarrow>
          (case FindN hr key spread of
             Inl err \<Rightarrow> Inl (RingError err)
           | Inr members' \<Rightarrow>
               (let index = (if spread > 1 then intn sum64 spread else 0) in
                if 0 \<le> index \<and> nat index < length members' then Inr (val (members' ! nat index))
                else Inl (Panic ''index out of range''))))"

subsection \<open>Vocabulary for the properties of the balancer\<close>


section \<open>Example inputs\<close>

text \<open>
  Two hash functions: a polynomial hash, and a hash that only reads the first byte, under
  which all virtual nodes of one member get the same hash.
\<close>

definition polyHash :: HashFunc where
  "polyHash bs = foldl (\<lambda>h b. h * 31 + ucast b) 7 bs"

definition firstByteHash :: HashFunc where
  "firstByteHash bs = (case bs of [] \<Rightarrow> 0 | b # _ \<Rightarrow> ucast b)"

definition exRing :: "nat Ring" where
  "exRing = \<lparr>hashfn = polyHash, replicationFactor = 2, nodes = Mapping.empty,
              virtualNodes = []\<rparr>"

definition collidingRing :: "nat Ring" where
  "collidingRing = \<lparr>hashfn = firstByteHash, replicationFactor = 2, nodes = Mapping.empty,
                     virtualNodes = []\<rparr>"

text \<open>
  An evaluator that counts the sub-connections in each state and reports \<open>Ready\<close>,
  \<open>Connecting\<close>, \<open>Idle\<close> or \<open>TransientFailure\<close>, in this order of preference.
\<close>

record evaluator =
  numReady :: "64 word"
  numConnecting :: "64 word"
  numTransientFailure :: "64 word"
  numIdle :: "64 word"

definition bump :: "evaluator \<Rightarrow> ConnState \<Rightarrow> 64 word \<Rightarrow> evaluator" where
  "bump e s d =
     (case s of
        Ready \<Rightarrow> e\<lparr>numReady := numReady e + d\<rparr>
      | Connecting \<Rightarrow> e\<lparr>numConnecting := numConnecting e + d\<rparr>
      | TransientFailure \<Rightarrow> e\<lparr>numTransientFailure := numTransientFailure e + d\<rparr>
      | Idle \<Rightarrow> e\<lparr>numIdle := numIdle e + d\<rparr>
      | Shutdown \<Rightarrow> e)"

definition CurrentState :: "evaluator \<Rightarrow> ConnState" where
  "CurrentState e =
     (if numReady e > 0 then Ready else if numConnecting e > 0 then Connecting
      else if numIdle e > 0 then Idle else TransientFailure)"

definition RecordTransition :: "evaluator \<Rightarrow> ConnState \<Rightarrow> ConnState \<Rightarrow> evaluator \<times> ConnState" where
  "RecordTransition e oldState newState =
     (let e' = bump (bump e oldState (- 1)) newState 1 in (e', CurrentState e'))"

text \<open>
  A balancer fresh from \<open>Build\<close>, the same balancer after a first resolver update with
  one address and replication factor 1, and three resolver updates without addresses.
\<close>

definition exBalancer :: "evaluator ringBalancer" where
  "exBalancer =
     Build polyHash \<lparr>newSubConnError = (\<lambda>_. None), nextSubConn = 0, calls = []\<rparr>
       \<lparr>numReady = 0, numConnecting = 0, numTransientFailure = 0, numIdle = 0\<rparr>"

definition exUpdate :: "16 word \<Rightarrow> Address list \<Rightarrow> ClientConnState" where
  "exUpdate rf addrs =
     \<lparr>Addresses = addrs, BalancerConfig = Some \<lparr>ReplicationFactor = rf, Spread = 1\<rparr>\<rparr>"

definition exBalancer1 :: "evaluator ringBalancer" where
  "exBalancer1 =
     fst (UpdateClientConnState RecordTransition exBalancer
            (exUpdate 1 [\<lparr>Addr = ''1'', ServerName = ''t''\<rparr>]))"

text \<open>
  The balancer after the sub-connection of the first address reported a failure, and a
  ring with three members for the picker.
\<close>

definition exBalancerTF :: "evaluator ringBalancer" where
  "exBalancerTF = UpdateSubConnState RecordTransition exBalancer1 0 TransientFailure
      (Some (ErrorString ''connection refused''))"

definition exPickRing :: "SubConn Ring" where
  "exPickRing = run \<lparr>hashfn = polyHash, replicationFactor = 2, nodes = Mapping.empty,
       virtualNodes = []\<rparr>
     [CallAdd (Member ''t1'' 0), CallAdd (Member ''t2'' 1), CallAdd (Member ''t3'' 2)]"

section \<open>Lemmas about the ring\<close>

lemma strings_Compare_less: "strings_Compare a b < 0 \<longleftrightarrow> a < b"
  by (induction a b rule: strings_Compare.induct) (auto simp: less_char_def)

lemma strings_Compare_eq: "strings_Compare a b = 0 \<longleftrightarrow> a = b"
  by (induction a b rule: strings_Compare.induct) (auto simp: less_char_def of_char_eq_iff)

lemma cmpVnode_less: "cmpVnode a b < 0 \<longleftrightarrow> orderKey a < orderKey b"
  by (auto simp: cmpVnode_def compareUint64_def orderKey_def strings_Compare_less)

lemma cmpVnode_eq: "cmpVnode a b = 0 \<longleftrightarrow> orderKey a = orderKey b"
  by (auto simp: cmpVnode_def compareUint64_def orderKey_def strings_Compare_eq)

lemma cmpVnode_ge: "cmpVnode a b \<ge> 0 \<longleftrightarrow> orderKey b \<le> orderKey a"
  using cmpVnode_less [of a b] by auto

lemma mset_insertCmp: "mset (insertCmp cmp x ys) = add_mset x (mset ys)"
  by (induction ys) auto

lemma set_insertCmp: "set (insertCmp cmp x ys) = insert x (set ys)"
  by (induction ys) auto

lemma length_insertCmp: "length (insertCmp cmp x ys) = Suc (length ys)"
  by (induction ys) auto

lemma sorted_insertCmp:
  "sorted (map orderKey ys) \<Longrightarrow> sorted (map orderKey (insertCmp cmpVnode x ys))"
  by (induction ys) (auto simp: cmpVnode_less set_insertCmp)

lemma foldl_insert_mset:
  "mset (foldl (\<lambda>acc x. insertCmp cmp x acc) acc xs) = mset acc + mset xs"
  by (induction xs arbitrary: acc) (auto simp: mset_insertCmp)

lemma foldl_insert_sorted:
  "sorted (map orderKey acc) \<Longrightarrow> sorted (map orderKey (foldl (\<lambda>acc x. insertCmp cmpVnode x acc) acc xs))"
  by (induction xs arbitrary: acc) (auto simp: sorted_insertCmp)

lemma mset_SortFunc: "mset (SortFunc xs cmp) = mset xs"
  by (simp add: SortFunc_def foldl_insert_mset)

lemma length_SortFunc: "length (SortFunc xs cmp) = length xs"
  using mset_SortFunc [of xs cmp] by (metis size_mset)

lemma set_SortFunc: "set (SortFunc xs cmp) = set xs"
  using mset_SortFunc [of xs cmp] by (metis set_mset_mset)

lemma sorted_SortFunc: "sorted (map orderKey (SortFunc xs cmpVnode))"
  by (simp add: SortFunc_def foldl_insert_sorted)






lemma Search_loop_le: "i \<le> j \<Longrightarrow> Search_loop f i j \<le> j"
proof (induction f i j rule: Search_loop.induct)
  case (1 f i j)
  show ?case
  proof (cases "i < j")
    case False
    then show ?thesis using "1.prems" by (simp add: Search_loop.simps)
  next
    case True
    let ?h = "(i + j) div 2"
    have h: "i \<le> ?h" "?h < j" using True by auto
    show ?thesis
    proof (cases "f ?h")
      case True
      have "Search_loop f i ?h \<le> ?h" using "1.IH"(2) [of ?h] True \<open>i < j\<close> h by simp
      moreover have "Search_loop f i j = Search_loop f i ?h"
        using True \<open>i < j\<close> by (subst Search_loop.simps) (simp add: Let_def)
      ultimately show ?thesis using h by simp
    next
      case False
      have "Search_loop f (?h + 1) j \<le> j" using "1.IH"(1) [of ?h] False \<open>i < j\<close> h by simp
      moreover have "Search_loop f i j = Search_loop f (?h + 1) j"
        using False \<open>i < j\<close> by (subst Search_loop.simps) (simp add: Let_def)
      ultimately show ?thesis by simp
    qed
  qed
qed

lemma Search_le: "Search n f \<le> n"
  by (simp add: Search_def Search_loop_le)

lemma Search_loop_unfold_lt:
  "i < j \<Longrightarrow> Search_loop f i j =
     (if \<not> f ((i + j) div 2) then Search_loop f ((i + j) div 2 + 1) j
      else Search_loop f i ((i + j) div 2))"
  by (subst Search_loop.simps) (simp add: Let_def)

lemma Search_loop_unfold_ge: "\<not> i < j \<Longrightarrow> Search_loop f i j = i"
  by (subst Search_loop.simps) simp

lemma Search_loop_below:
  assumes mono: "\<And>a b. a \<le> b \<Longrightarrow> b < n \<Longrightarrow> f a \<Longrightarrow> f b"
  shows "i \<le> j \<Longrightarrow> j \<le> n \<Longrightarrow> \<forall>k < i. \<not> f k \<Longrightarrow> \<forall>k < Search_loop f i j. \<not> f k"
proof (induction "j - i" arbitrary: i j rule: less_induct)
  case less
  show ?case
  proof (cases "i < j")
    case False
    then have "Search_loop f i j = i" by (rule Search_loop_unfold_ge)
    with less.prems(3) show ?thesis by simp
  next
    case True
    define h where "h = (i + j) div 2"
    have h1: "i \<le> h" and h2: "h < j" using True by (auto simp: h_def)
    show ?thesis
    proof (cases "f h")
      case True
      have eq: "Search_loop f i j = Search_loop f i h"
        using True \<open>i < j\<close> by (simp add: Search_loop_unfold_lt h_def)
      have "h - i < j - i" using h1 h2 by simp
      moreover have "h \<le> n" using h2 less.prems(2) by simp
      ultimately have "\<forall>k < Search_loop f i h. \<not> f k"
        using h1 less.prems(3) by (intro less.hyps)
      with eq show ?thesis by simp
    next
      case False
      have eq: "Search_loop f i j = Search_loop f (h + 1) j"
        using False \<open>i < j\<close> by (simp add: Search_loop_unfold_lt h_def)
      have hn: "h < n" using h2 less.prems(2) by simp
      have nf: "\<forall>k < h + 1. \<not> f k"
      proof (intro allI impI notI)
        fix k assume "k < h + 1" and "f k"
        then have "k \<le> h" by simp
        then have "f h" using hn \<open>f k\<close> by (rule mono)
        with False show False by simp
      qed
      have "j - (h + 1) < j - i" using h1 h2 by simp
      moreover have "h + 1 \<le> j" using h2 by simp
      ultimately have "\<forall>k < Search_loop f (h + 1) j. \<not> f k"
        using less.prems(2) nf by (intro less.hyps)
      with eq show ?thesis by simp
    qed
  qed
qed

lemma Search_loop_at:
  "i \<le> j \<Longrightarrow> (j < n \<longrightarrow> f j) \<Longrightarrow> Search_loop f i j < n \<longrightarrow> f (Search_loop f i j)"
proof (induction "j - i" arbitrary: i j rule: less_induct)
  case less
  show ?case
  proof (cases "i < j")
    case False
    then have "Search_loop f i j = i" by (rule Search_loop_unfold_ge)
    moreover from False less.prems(1) have "i = j" by simp
    ultimately show ?thesis using less.prems(2) by simp
  next
    case True
    define h where "h = (i + j) div 2"
    have h1: "i \<le> h" and h2: "h < j" using True by (auto simp: h_def)
    show ?thesis
    proof (cases "f h")
      case True
      have eq: "Search_loop f i j = Search_loop f i h"
        using True \<open>i < j\<close> by (simp add: Search_loop_unfold_lt h_def)
      have "h - i < j - i" using h1 h2 by simp
      moreover have "h < n \<longrightarrow> f h" using True by simp
      ultimately have "Search_loop f i h < n \<longrightarrow> f (Search_loop f i h)"
        using h1 by (intro less.hyps)
      with eq show ?thesis by simp
    next
      case False
      have eq: "Search_loop f i j = Search_loop f (h + 1) j"
        using False \<open>i < j\<close> by (simp add: Search_loop_unfold_lt h_def)
      have "j - (h + 1) < j - i" using h1 h2 by simp
      moreover have "h + 1 \<le> j" using h2 by simp
      ultimately have "Search_loop f (h + 1) j < n \<longrightarrow> f (Search_loop f (h + 1) j)"
        using less.prems(2) by (intro less.hyps)
      with eq show ?thesis by simp
    qed
  qed
qed

lemma Search_correct:
  assumes "\<And>a b. a \<le> b \<Longrightarrow> b < n \<Longrightarrow> f a \<Longrightarrow> f b"
  shows "(\<forall>k < Search n f. \<not> f k) \<and> (Search n f < n \<longrightarrow> f (Search n f))"
proof -
  have "\<forall>k < Search_loop f 0 n. \<not> f k"
    by (rule Search_loop_below [where n = n]) (use assms in simp_all)
  moreover have "Search_loop f 0 n < n \<longrightarrow> f (Search_loop f 0 n)"
    by (rule Search_loop_at) simp_all
  ultimately show ?thesis by (simp add: Search_def)
qed

lemma Search_at_any: "Search n f < n \<Longrightarrow> f (Search n f)"
  using Search_loop_at [of 0 n n f] by (simp add: Search_def)

lemma unat_succ_less: "(i :: 16 word) < rf \<Longrightarrow> unat (i + 1) = Suc (unat i)"
proof -
  assume "i < rf"
  then have a: "unat i < unat rf" by (simp add: word_less_nat_alt)
  have b: "unat rf < 2 ^ 16" using unsigned_less [of rf, where 'a=nat] by simp
  have "unat (i + 1) = (unat i + 1) mod 2 ^ 16" by (simp add: unat_word_ariths)
  with a b show ?thesis by simp
qed

lemma Add_loop_unfold_ge: "\<not> i < rf \<Longrightarrow> Add_loop hf rf i buf r vs = (r, vs)"
  by (subst Add_loop.simps) simp

lemma Add_loop_unfold_lt:
  "i < rf \<Longrightarrow> Add_loop hf rf i buf r vs =
     Add_loop hf rf (i + 1) (take 8 buf @ PutUint16 (drop 8 buf) i)
       (NodeRecord (nr_hashvalue r) (nodeKey r) (member r)
          (nr_virtualNodes r @ [VirtualNode (hf (take 8 buf @ PutUint16 (drop 8 buf) i)) r]))
       (vs @ [VirtualNode (hf (take 8 buf @ PutUint16 (drop 8 buf) i)) r])"
  by (subst Add_loop.simps) (simp add: Let_def)

lemma Add_loop_measure: "(i :: 16 word) < rf \<Longrightarrow> unat rf - unat (i + 1) < unat rf - unat i"
  using unat_succ_less [of i rf] by (simp add: word_less_nat_alt)

lemma Add_loop_length:
  "length (snd (Add_loop hf rf i buf r vs)) = length vs + (unat rf - unat i)
   \<and> length (nr_virtualNodes (fst (Add_loop hf rf i buf r vs)))
       = length (nr_virtualNodes r) + (unat rf - unat i)
   \<and> nodeKey (fst (Add_loop hf rf i buf r vs)) = nodeKey r
   \<and> nr_hashvalue (fst (Add_loop hf rf i buf r vs)) = nr_hashvalue r
   \<and> member (fst (Add_loop hf rf i buf r vs)) = member r"
proof (induction "unat rf - unat i" arbitrary: i buf r vs rule: less_induct)
  case less
  show ?case
  proof (cases "i < rf")
    case False
    then have "unat rf - unat i = 0" by (simp add: word_less_nat_alt)
    with False show ?thesis by (simp add: Add_loop_unfold_ge)
  next
    case True
    note IH = less.hyps [OF Add_loop_measure [OF True]]
    have "unat rf - unat i = Suc (unat rf - unat (i + 1))"
      using True unat_succ_less [OF True] by (simp add: word_less_nat_alt)
    then show ?thesis
      by (simp add: Add_loop_unfold_lt [OF True] IH)
  qed
qed

lemma Add_loop_prefix:
  "Add_loop hf rf i buf r vs =
     (fst (Add_loop hf rf i buf r []), vs @ snd (Add_loop hf rf i buf r []))"
proof (induction "unat rf - unat i" arbitrary: i buf r vs rule: less_induct)
  case less
  show ?case
  proof (cases "i < rf")
    case False
    then show ?thesis by (simp add: Add_loop_unfold_ge)
  next
    case True
    note IH = less.hyps [OF Add_loop_measure [OF True]]
    let ?b = "take 8 buf @ PutUint16 (drop 8 buf) i"
    let ?vn = "VirtualNode (hf ?b) r"
    let ?r = "NodeRecord (nr_hashvalue r) (nodeKey r) (member r) (nr_virtualNodes r @ [?vn])"
    let ?X = "Add_loop hf rf (i + 1) ?b ?r []"
    have a: "Add_loop hf rf (i + 1) ?b ?r (vs @ [?vn]) = (fst ?X, (vs @ [?vn]) @ snd ?X)"
      by (rule IH)
    have b: "Add_loop hf rf (i + 1) ?b ?r [?vn] = (fst ?X, [?vn] @ snd ?X)"
      by (rule IH)
    have c: "Add_loop hf rf i buf r vs = Add_loop hf rf (i + 1) ?b ?r (vs @ [?vn])"
      by (rule Add_loop_unfold_lt [OF True])
    have d: "Add_loop hf rf i buf r [] = Add_loop hf rf (i + 1) ?b ?r [?vn]"
      using Add_loop_unfold_lt [OF True, of hf buf r "[]"] by simp
    show ?thesis
      by (simp only: c d a b fst_conv snd_conv append_assoc)
  qed
qed

lemma Add_loop_owner:
  "v \<in> set (snd (Add_loop hf rf i buf r [])) \<Longrightarrow>
     nodeKey (members v) = nodeKey r \<and> nr_hashvalue (members v) = nr_hashvalue r
     \<and> member (members v) = member r"
proof (induction "unat rf - unat i" arbitrary: i buf r rule: less_induct)
  case less
  show ?case
  proof (cases "i < rf")
    case False
    with less.prems show ?thesis by (simp add: Add_loop_unfold_ge)
  next
    case True
    note IH = less.hyps [OF Add_loop_measure [OF True]]
    let ?b = "take 8 buf @ PutUint16 (drop 8 buf) i"
    let ?vn = "VirtualNode (hf ?b) r"
    let ?r = "NodeRecord (nr_hashvalue r) (nodeKey r) (member r) (nr_virtualNodes r @ [?vn])"
    from less.prems have "v \<in> set (snd (Add_loop hf rf (i + 1) ?b ?r [?vn]))"
      by (simp add: Add_loop_unfold_lt [OF True])
    then have "v = ?vn \<or> v \<in> set (snd (Add_loop hf rf (i + 1) ?b ?r []))"
      by (subst (asm) Add_loop_prefix) auto
    then show ?thesis
    proof
      assume "v = ?vn" then show ?thesis by simp
    next
      assume "v \<in> set (snd (Add_loop hf rf (i + 1) ?b ?r []))"
      from IH [OF this] show ?thesis by simp
    qed
  qed
qed

lemma New_inv: "New hf rf = Inr h \<Longrightarrow> ring_inv h"
proof -
  assume a: "New hf rf = Inr h"
  then have rf: "\<not> rf < 1" and h: "h = \<lparr>hashfn = hf, replicationFactor = rf, nodes = Mapping.empty, virtualNodes = []\<rparr>"
    by (auto simp: New_def split: if_splits)
  from rf have "1 \<le> unat rf" by (simp add: word_less_nat_alt not_less)
  with h show ?thesis by (simp add: ring_inv_def)
qed

lemma Add_error_unchanged: "snd (Add h m) \<noteq> None \<Longrightarrow> fst (Add h m) = h"
  by (auto simp: Add_def Let_def split: prod.splits if_splits)

lemma Add_success:
  assumes "Mapping.lookup (nodes h) (Key m) = None"
  shows "Add h m =
    (h\<lparr>virtualNodes := SortFunc (virtualNodes h @ snd (Add_loop (hashfn h) (replicationFactor h) 0
            (PutUint64 (replicate 10 0) (hashfn h (bytes_of (Key m))))
            (NodeRecord (hashfn h (bytes_of (Key m))) (Key m) m []) [])) cmpVnode,
       nodes := Mapping.update (Key m)
          (fst (Add_loop (hashfn h) (replicationFactor h) 0
            (PutUint64 (replicate 10 0) (hashfn h (bytes_of (Key m))))
            (NodeRecord (hashfn h (bytes_of (Key m))) (Key m) m []) [])) (nodes h)\<rparr>, None)"
  using assms
  apply (simp add: Add_def Let_def split: prod.splits)
  apply (subst Add_loop_prefix)
  apply simp
  done

lemma Add_inv:
  assumes "ring_inv h"
  shows "ring_inv (fst (Add h m))"
proof (cases "Mapping.lookup (nodes h) (Key m) = None")
  case False
  then have "fst (Add h m) = h" by (simp add: Add_def Let_def)
  with assms show ?thesis by simp
next
  case True
  let ?L = "Add_loop (hashfn h) (replicationFactor h) 0
            (PutUint64 (replicate 10 0) (hashfn h (bytes_of (Key m))))
            (NodeRecord (hashfn h (bytes_of (Key m))) (Key m) m []) []"
  have notin: "Key m \<notin> Mapping.keys (nodes h)"
    using True by (simp add: keys_dom_lookup domIff)
  have fin: "finite (Mapping.keys (nodes h))" using assms by (simp add: ring_inv_def)
  have sz: "Mapping.size (Mapping.update (Key m) (fst ?L) (nodes h)) = Suc (Mapping.size (nodes h))"
    using notin fin by (simp add: size_update)
  have len: "length (snd ?L) = unat (replicationFactor h)"
    and lenr: "length (nr_virtualNodes (fst ?L)) = unat (replicationFactor h)"
    by (simp_all add: Add_loop_length)
  have look: "\<And>k r. Mapping.lookup (Mapping.update (Key m) (fst ?L) (nodes h)) k = Some r \<Longrightarrow>
      length (nr_virtualNodes r) = unat (replicationFactor h)"
    using assms lenr by (auto simp: lookup_update' ring_inv_def split: if_splits)
  show ?thesis
    using assms sz len look
    by (simp add: Add_success [OF True] ring_inv_def length_SortFunc sorted_SortFunc)
qed

lemma Remove_search_Cons:
  "Remove_search vs (w # ws) acc = Inr found \<Longrightarrow>
     Search (length vs) (\<lambda>i. cmpVnode (vs ! i) w \<ge> 0) < length vs
     \<and> Remove_search vs ws (acc @ [Search (length vs) (\<lambda>i. cmpVnode (vs ! i) w \<ge> 0)]) = Inr found"
  by (cases "Search (length vs) (\<lambda>i. cmpVnode (vs ! i) w \<ge> 0) < length vs")
     (simp_all add: Let_def)

lemma Remove_search_length:
  "Remove_search vs ws acc = Inr found \<Longrightarrow> length found = length acc + length ws"
proof (induction ws arbitrary: acc)
  case Nil
  then show ?case by simp
next
  case (Cons w ws)
  from Remove_search_Cons [OF Cons.prems] Cons.IH show ?case by fastforce
qed

lemma Remove_search_bound:
  "Remove_search vs ws acc = Inr found \<Longrightarrow> \<forall>i \<in> set acc. i < length vs \<Longrightarrow>
     \<forall>i \<in> set found. i < length vs"
proof (induction ws arbitrary: acc)
  case Nil
  then show ?case by simp
next
  case (Cons w ws)
  from Remove_search_Cons [OF Cons.prems(1)] Cons.prems(2) show ?case
    by (intro Cons.IH [where acc = "acc @ [Search (length vs) (\<lambda>i. cmpVnode (vs ! i) w \<ge> 0)]"]) auto
qed

lemma Remove_search_Inl:
  "Remove_search vs ws acc = Inl e \<Longrightarrow> \<exists>a b c. e = ErrVnodeNotFound a b c"
proof (induction ws arbitrary: acc)
  case Nil
  then show ?case by simp
next
  case (Cons w ws)
  show ?case
  proof (cases "Search (length vs) (\<lambda>i. cmpVnode (vs ! i) w \<ge> 0) < length vs")
    case True
    with Cons.prems have "Remove_search vs ws (acc @ [Search (length vs) (\<lambda>i. cmpVnode (vs ! i) w \<ge> 0)]) = Inl e"
      by (simp add: Let_def)
    then show ?thesis by (rule Cons.IH)
  next
    case False
    with Cons.prems show ?thesis by (auto simp: Let_def)
  qed
qed

lemma length_Remove_swap: "length (Remove_swap vs i idxs) = length vs"
  by (induction idxs arbitrary: vs i) auto

lemma Remove_error_unchanged: "snd (Remove h m) \<noteq> None \<Longrightarrow> fst (Remove h m) = h"
  by (simp add: Remove_def Let_def split: option.splits sum.splits if_splits)

lemma Remove_not_found:
  "snd (Remove h m) = Some ErrMemberNotFound \<longleftrightarrow> Mapping.lookup (nodes h) (Key m) = None"
proof (cases "Mapping.lookup (nodes h) (Key m)")
  case None
  then show ?thesis by (simp add: Remove_def)
next
  case (Some foundNode)
  show ?thesis
  proof (cases "Remove_search (virtualNodes h) (nr_virtualNodes foundNode) []")
    case (Inl e)
    with Remove_search_Inl [OF Inl] Some show ?thesis by (auto simp: Remove_def)
  next
    case (Inr found)
    with Some show ?thesis by (simp add: Remove_def Let_def)
  qed
qed

lemma Remove_inv_cases:
  assumes "ring_inv h"
  shows "ring_inv (fst (Remove h m)) \<and> snd (Remove h m) \<noteq> Some ErrUnexpectedVnodeCount
     \<and> snd (Remove h m) \<noteq> Some PanicIndexOutOfRange"
proof (cases "Mapping.lookup (nodes h) (Key m)")
  case None
  with assms show ?thesis by (simp add: Remove_def)
next
  case (Some foundNode)
  have lenr: "length (nr_virtualNodes foundNode) = unat (replicationFactor h)"
    using assms Some by (simp add: ring_inv_def)
  have inkeys: "Key m \<in> Mapping.keys (nodes h)"
    using Some by (simp add: keys_dom_lookup domIff)
  have fin: "finite (Mapping.keys (nodes h))" using assms by (simp add: ring_inv_def)
  have "Mapping.size (nodes h) \<ge> 1"
    using inkeys fin by (metis Mapping.size_def One_nat_def Suc_leI card_gt_0_iff empty_iff)
  then have big: "unat (replicationFactor h) \<le> length (virtualNodes h)"
    using assms by (simp add: ring_inv_def)
  show ?thesis
  proof (cases "Remove_search (virtualNodes h) (nr_virtualNodes foundNode) []")
    case (Inl e)
    have "e \<noteq> ErrUnexpectedVnodeCount \<and> e \<noteq> PanicIndexOutOfRange"
      using Remove_search_Inl [OF Inl] by auto
    with Inl Some assms show ?thesis by (simp add: Remove_def)
  next
    case (Inr found)
    have lf: "length found = unat (replicationFactor h)"
      using Remove_search_length [OF Inr] lenr by simp
    have res: "Remove h m = (h\<lparr>virtualNodes :=
        SortFunc (take (length (virtualNodes h) - length found)
           (Remove_swap (virtualNodes h) 0 (rev (sort found)))) cmpVnode,
        nodes := Mapping.delete (Key m) (nodes h)\<rparr>, None)"
      using Some Inr lf big by (simp add: Remove_def Let_def length_Remove_swap)
    have sz: "Mapping.size (Mapping.delete (Key m) (nodes h)) = Mapping.size (nodes h) - 1"
      using inkeys by (simp add: size_delete)
    have look: "\<And>k r. Mapping.lookup (Mapping.delete (Key m) (nodes h)) k = Some r \<Longrightarrow>
      length (nr_virtualNodes r) = unat (replicationFactor h)"
    proof -
      fix k r assume a: "Mapping.lookup (Mapping.delete (Key m) (nodes h)) k = Some r"
      then have "k \<noteq> Key m" by (metis lookup_delete option.distinct(1))
      with a have "Mapping.lookup (nodes h) k = Some r" by simp
      with assms show "length (nr_virtualNodes r) = unat (replicationFactor h)"
        by (simp add: ring_inv_def)
    qed
    have "ring_inv (fst (Remove h m))"
      using assms sz lf big look
      by (simp add: res ring_inv_def length_SortFunc sorted_SortFunc length_Remove_swap
          diff_mult_distrib)
    then show ?thesis by (simp add: res)
  qed
qed

lemma step_inv: "ring_inv h \<Longrightarrow> ring_inv (fst (step h c))"
  by (cases c) (simp_all add: Add_inv Remove_inv_cases)

lemma run_inv: "ring_inv h \<Longrightarrow> ring_inv (run h cs)"
  unfolding run_def by (induction cs arbitrary: h) (simp_all add: step_inv)

lemma replicationFactor_step: "replicationFactor (fst (step h c)) = replicationFactor h"
  by (cases c) (simp_all add: Add_def Remove_def Let_def split: prod.splits option.splits sum.splits)

lemma byte_of_shift: "(ucast (drop_bit n (v :: 'a::len word)) :: byte) = of_nat (unat v div 2 ^ n)"
proof -
  have "(ucast (drop_bit n v) :: byte) = of_nat (unat (drop_bit n v))"
    by simp
  also have "unat (drop_bit n v) = unat v div 2 ^ n"
    unfolding unat_drop_bit_eq by (rule drop_bit_eq_div)
  finally show ?thesis .
qed

lemma byte_of_word: "(ucast (v :: 'a::len word) :: byte) = of_nat (unat v)"
  by simp

lemma PutUint64_le:
  "length b = 10 \<Longrightarrow> PutUint64 b v = le_bytes 8 (unat v) @ drop 8 b"
proof -
  assume "length b = 10"
  then obtain b0 b1 b2 b3 b4 b5 b6 b7 b8 b9 where b: "b = [b0,b1,b2,b3,b4,b5,b6,b7,b8,b9]"
    by (auto simp: length_Suc_conv eval_nat_numeral)
  have u: "[0..<8] = [0,1,2,3,4,5,6,7]" by (simp add: upt_rec)
  show ?thesis
    using byte_of_shift [of 8 v] byte_of_shift [of 16 v] byte_of_shift [of 24 v]
      byte_of_shift [of 32 v] byte_of_shift [of 40 v] byte_of_shift [of 48 v]
      byte_of_shift [of 56 v] byte_of_word [of v]
    by (simp add: b PutUint64_def le_bytes_def u del: of_nat_unat)
qed

lemma PutUint16_le:
  "length b = 2 \<Longrightarrow> PutUint16 b v = le_bytes 2 (unat v)"
proof -
  assume "length b = 2"
  then obtain b0 b1 where b: "b = [b0,b1]"
    by (auto simp: length_Suc_conv eval_nat_numeral)
  have u: "[0..<2] = [0,1]" by (simp add: upt_rec)
  show ?thesis
    using byte_of_shift [of 8 v] byte_of_word [of v]
    by (simp add: b PutUint16_def le_bytes_def u del: of_nat_unat)
qed

lemma Add_loop_Cons:
  "i < rf \<Longrightarrow> snd (Add_loop hf rf i buf r []) =
     VirtualNode (hf (take 8 buf @ PutUint16 (drop 8 buf) i)) r #
     snd (Add_loop hf rf (i + 1) (take 8 buf @ PutUint16 (drop 8 buf) i)
       (NodeRecord (nr_hashvalue r) (nodeKey r) (member r)
          (nr_virtualNodes r @ [VirtualNode (hf (take 8 buf @ PutUint16 (drop 8 buf) i)) r])) [])"
  using Add_loop_unfold_lt [of i rf hf buf r "[]"]
  by (simp add: Add_loop_prefix [of _ _ _ _ _ "[_]"])

lemma Add_loop_record:
  "nr_virtualNodes (fst (Add_loop hf rf i buf r [])) =
     nr_virtualNodes r @ snd (Add_loop hf rf i buf r [])"
proof (induction "unat rf - unat i" arbitrary: i buf r rule: less_induct)
  case less
  show ?case
  proof (cases "i < rf")
    case False
    then show ?thesis by (simp add: Add_loop_unfold_ge)
  next
    case True
    note IH = less.hyps [OF Add_loop_measure [OF True]]
    have "fst (Add_loop hf rf i buf r []) =
       fst (Add_loop hf rf (i + 1) (take 8 buf @ PutUint16 (drop 8 buf) i)
       (NodeRecord (nr_hashvalue r) (nodeKey r) (member r)
          (nr_virtualNodes r @ [VirtualNode (hf (take 8 buf @ PutUint16 (drop 8 buf) i)) r])) [])"
      using Add_loop_unfold_lt [OF True, of hf buf r "[]"]
      by (simp add: Add_loop_prefix [of _ _ _ _ _ "[_]"])
    then show ?thesis
      by (simp add: Add_loop_Cons [OF True] IH)
  qed
qed

lemma Add_loop_hash:
  "length buf = 10 \<Longrightarrow> k < unat rf - unat i \<Longrightarrow>
     hashvalue (snd (Add_loop hf rf i buf r []) ! k) = hf (take 8 buf @ le_bytes 2 (unat i + k))"
proof (induction k arbitrary: i buf r)
  case 0
  then have lt: "i < rf" by (simp add: word_less_nat_alt)
  show ?case using 0 by (simp add: Add_loop_Cons [OF lt] PutUint16_le)
next
  case (Suc k)
  then have lt: "i < rf" by (simp add: word_less_nat_alt)
  have s: "unat (i + 1) = Suc (unat i)" by (rule unat_succ_less [OF lt])
  let ?b = "take 8 buf @ PutUint16 (drop 8 buf) i"
  have lb: "length ?b = 10" using Suc.prems(1) by (simp add: PutUint16_le le_bytes_def)
  have tb: "take 8 ?b = take 8 buf" using Suc.prems(1) by simp
  have k: "k < unat rf - unat (i + 1)" using Suc.prems(2) s by simp
  have "hashvalue (snd (Add_loop hf rf (i + 1) ?b
       (NodeRecord (nr_hashvalue r) (nodeKey r) (member r)
          (nr_virtualNodes r @ [VirtualNode (hf ?b) r])) []) ! k)
      = hf (take 8 ?b @ le_bytes 2 (unat (i + 1) + k))"
    by (rule Suc.IH [OF lb k])
  then show ?case
    by (simp only: Add_loop_Cons [OF lt] tb s nth_Cons_Suc add_Suc add_Suc_right)
qed





lemma memberVnodes_key:
  "v \<in> set (memberVnodes hf rf m) \<Longrightarrow> nodeKey (members v) = Key m"
  unfolding memberVnodes_def by (drule Add_loop_owner) simp





lemma sorted_orderKey_unique:
  assumes "mset ys = mset xs" and "sorted (map orderKey ys)" and "sorted (map orderKey xs)"
    and "inj_on orderKey (set xs)" and "distinct xs"
  shows "ys = xs"
proof -
  have s: "set ys = set xs" using assms(1) by (metis set_mset_mset)
  have dy: "distinct ys" using assms(1,5) by (metis mset_eq_imp_distinct_iff)
  have "map orderKey ys = map orderKey xs"
  proof (rule sorted_distinct_set_unique)
    show "sorted (map orderKey ys)" by (rule assms(2))
    show "sorted (map orderKey xs)" by (rule assms(3))
    show "distinct (map orderKey ys)" using dy assms(4) s by (simp add: distinct_map)
    show "distinct (map orderKey xs)" using assms(4,5) by (simp add: distinct_map)
    show "set (map orderKey ys) = set (map orderKey xs)" using s by simp
  qed
  then show ?thesis
    using assms(4) s by (metis map_inj_on subset_refl sup.idem Un_upper1 inj_on_subset)
qed

lemma SortFunc_unique:
  assumes "mset ys = mset xs" and "sorted (map orderKey ys)"
    and "inj_on orderKey (set xs)" and "distinct xs"
  shows "ys = SortFunc xs cmpVnode"
proof -
  let ?zs = "SortFunc xs cmpVnode"
  have "mset ys = mset ?zs" using assms(1) by (simp add: mset_SortFunc)
  moreover have "sorted (map orderKey ?zs)" by (rule sorted_SortFunc)
  moreover have "inj_on orderKey (set ?zs)" using assms(3) by (simp add: set_SortFunc)
  moreover have "distinct ?zs" using assms(4) mset_SortFunc [of xs cmpVnode]
    by (metis mset_eq_imp_distinct_iff)
  ultimately show ?thesis using assms(2) by (intro sorted_orderKey_unique)
qed

lemma replicationFactor_run: "replicationFactor (run h cs) = replicationFactor h"
  unfolding run_def by (induction cs arbitrary: h) (simp_all add: replicationFactor_step)

lemma New_replicationFactor: "New hf rf = Inr h \<Longrightarrow> replicationFactor h = rf"
  by (auto simp: New_def split: if_splits)

lemma FindN_loop_stop:
  "\<not> (i < length vs \<and> length found < num) \<Longrightarrow> FindN_loop vs idx num i seen found = found"
  by (subst FindN_loop.simps) auto

lemma FindN_loop_step:
  "i < length vs \<Longrightarrow> length found < num \<Longrightarrow>
   FindN_loop vs idx num i seen found =
     (if nodeKey (members (vs ! ((i + idx) mod length vs))) \<notin> seen then
        FindN_loop vs idx num (i + 1)
          (insert (nodeKey (members (vs ! ((i + idx) mod length vs)))) seen)
          (found @ [member (members (vs ! ((i + idx) mod length vs)))])
      else FindN_loop vs idx num (i + 1) seen found)"
  by (subst FindN_loop.simps) (simp add: Let_def)

lemma FindN_loop_walk:
  "length found \<le> num \<Longrightarrow>
   FindN_loop vs idx num i seen found
     = take num (found @ distinctOwners seen (drop i (rotate idx vs)))"
proof (induction "length vs - i" arbitrary: i seen found rule: less_induct)
  case less
  show ?case
  proof (cases "i < length vs \<and> length found < num")
    case False
    then have r: "FindN_loop vs idx num i seen found = found" by (rule FindN_loop_stop)
    from False have "length vs \<le> i \<or> length found = num" using less.prems by auto
    then show ?thesis using less.prems by (auto simp: r)
  next
    case True
    let ?c = "vs ! ((i + idx) mod length vs)"
    have nth: "rotate idx vs ! i = ?c"
      using True by (simp add: nth_rotate add.commute)
    have dr: "drop i (rotate idx vs) = ?c # drop (i + 1) (rotate idx vs)"
      using True nth by (metis Cons_nth_drop_Suc Suc_eq_plus1 length_rotate)
    have m: "length vs - (i + 1) < length vs - i" using True by linarith
    show ?thesis
    proof (cases "nodeKey (members ?c) \<in> seen")
      case True
      have "FindN_loop vs idx num i seen found = FindN_loop vs idx num (i + 1) seen found"
        using \<open>i < length vs \<and> length found < num\<close> True by (simp add: FindN_loop_step)
      also have "\<dots> = take num (found @ distinctOwners seen (drop (i + 1) (rotate idx vs)))"
        using m less.prems by (rule less.hyps)
      finally show ?thesis using True by (simp only: dr distinctOwners.simps if_True)
    next
      case False
      have l: "length (found @ [member (members ?c)]) \<le> num"
        using \<open>i < length vs \<and> length found < num\<close> by simp
      have "FindN_loop vs idx num i seen found
          = FindN_loop vs idx num (i + 1) (insert (nodeKey (members ?c)) seen)
              (found @ [member (members ?c)])"
        using \<open>i < length vs \<and> length found < num\<close> False by (simp add: FindN_loop_step)
      also have "\<dots> = take num ((found @ [member (members ?c)])
            @ distinctOwners (insert (nodeKey (members ?c)) seen) (drop (i + 1) (rotate idx vs)))"
        using m l by (rule less.hyps)
      finally show ?thesis using False by (simp only: dr distinctOwners.simps if_False append_assoc append_Cons append_Nil)
    qed
  qed
qed

lemma length_distinctOwners:
  "length (distinctOwners seen vs) = card ((\<lambda>v. nodeKey (members v)) ` set vs - seen)"
proof (induction vs arbitrary: seen)
  case Nil
  show ?case by simp
next
  case (Cons v vs)
  let ?k = "nodeKey (members v)"
  let ?K = "(\<lambda>v. nodeKey (members v)) ` set vs"
  show ?case
  proof (cases "?k \<in> seen")
    case True
    then have "insert ?k ?K - seen = ?K - seen" by auto
    with True Cons show ?thesis by simp
  next
    case False
    have "insert ?k ?K - seen = insert ?k (?K - insert ?k seen)" using False by auto
    moreover have "?k \<notin> ?K - insert ?k seen" by simp
    moreover have "finite (?K - insert ?k seen)" by simp
    ultimately have "card (insert ?k ?K - seen) = Suc (card (?K - insert ?k seen))"
      by (metis card_insert_disjoint)
    with False Cons show ?thesis by simp
  qed
qed

lemma FindN_walk:
  "FindN h key num =
     (if unat num > Mapping.size (nodes h) then Inl ErrNotEnoughMembers
      else Inr (take (unat num) (distinctOwners {}
             (rotate (Search (length (virtualNodes h))
                        (\<lambda>i. hashvalue (virtualNodes h ! i) \<ge> hashfn h key))
                (virtualNodes h)))))"
  by (simp add: FindN_def Let_def FindN_loop_walk)

lemma FindN_start_index:
  assumes "sorted (map orderKey (virtualNodes h))"
  shows "(\<forall>k < Search (length (virtualNodes h)) (\<lambda>i. hashvalue (virtualNodes h ! i) \<ge> x).
            hashvalue (virtualNodes h ! k) < x)
     \<and> (Search (length (virtualNodes h)) (\<lambda>i. hashvalue (virtualNodes h ! i) \<ge> x)
           < length (virtualNodes h) \<longrightarrow>
         hashvalue (virtualNodes h ! Search (length (virtualNodes h))
            (\<lambda>i. hashvalue (virtualNodes h ! i) \<ge> x)) \<ge> x)"
proof -
  let ?vs = "virtualNodes h"
  have mono: "hashvalue (?vs ! a) \<le> hashvalue (?vs ! b)" if "a \<le> b" "b < length ?vs" for a b
  proof -
    have "orderKey (?vs ! a) \<le> orderKey (?vs ! b)"
      using assms that by (simp add: sorted_iff_nth_mono)
    then show ?thesis by (auto simp: orderKey_def less_eq_prod_def)
  qed
  have "(\<forall>k < Search (length ?vs) (\<lambda>i. hashvalue (?vs ! i) \<ge> x). \<not> hashvalue (?vs ! k) \<ge> x)
     \<and> (Search (length ?vs) (\<lambda>i. hashvalue (?vs ! i) \<ge> x) < length ?vs \<longrightarrow>
          hashvalue (?vs ! Search (length ?vs) (\<lambda>i. hashvalue (?vs ! i) \<ge> x)) \<ge> x)"
  proof (rule Search_correct)
    fix a b assume "a \<le> b" "b < length ?vs" "x \<le> hashvalue (?vs ! a)"
    with mono [of a b] show "x \<le> hashvalue (?vs ! b)" by simp
  qed
  then show ?thesis by (simp add: not_le)
qed

lemma FindN_count:
  assumes "finite (Mapping.keys (nodes h))"
    and "Mapping.keys (nodes h) \<subseteq> (\<lambda>v. nodeKey (members v)) ` set (virtualNodes h)"
    and "unat num \<le> Mapping.size (nodes h)"
  shows "\<exists>ms. FindN h key num = Inr ms \<and> length ms = unat num"
proof -
  let ?i = "Search (length (virtualNodes h)) (\<lambda>i. hashvalue (virtualNodes h ! i) \<ge> hashfn h key)"
  have "Mapping.size (nodes h) \<le> card ((\<lambda>v. nodeKey (members v)) ` set (virtualNodes h))"
    using assms(1,2) by (simp add: Mapping.size_def card_mono)
  then have "unat num \<le> length (distinctOwners {} (rotate ?i (virtualNodes h)))"
    using assms(3) by (simp add: length_distinctOwners)
  then show ?thesis using assms(3) by (simp add: FindN_walk)
qed

lemma Remove_search_index:
  assumes s: "sorted (map orderKey vs)" and d: "distinct (map orderKey vs)"
    and p: "p < length vs"
  shows "Search (length vs) (\<lambda>i. cmpVnode (vs ! i) (vs ! p) \<ge> 0) = p"
proof -
  let ?f = "\<lambda>i. cmpVnode (vs ! i) (vs ! p) \<ge> 0"
  let ?r = "Search (length vs) ?f"
  have mono: "orderKey (vs ! a) \<le> orderKey (vs ! b)" if "a \<le> b" "b < length vs" for a b
    using s that by (simp add: sorted_iff_nth_mono)
  have c: "(\<forall>k < ?r. \<not> ?f k) \<and> (?r < length vs \<longrightarrow> ?f ?r)"
  proof (rule Search_correct)
    fix a b assume ab: "a \<le> b" "b < length vs" and fa: "0 \<le> cmpVnode (vs ! a) (vs ! p)"
    from fa have "orderKey (vs ! p) \<le> orderKey (vs ! a)" by (simp add: cmpVnode_ge)
    also have "\<dots> \<le> orderKey (vs ! b)" using ab by (rule mono)
    finally show "0 \<le> cmpVnode (vs ! b) (vs ! p)" by (simp add: cmpVnode_ge)
  qed
  have fp: "?f p" by (simp add: cmpVnode_ge)
  have le: "?r \<le> p"
  proof (rule ccontr)
    assume "\<not> ?r \<le> p"
    then have "p < ?r" by simp
    with c have "\<not> ?f p" by blast
    with fp show False by simp
  qed
  then have lt: "?r < length vs" using p by simp
  with c have "?f ?r" by blast
  then have "orderKey (vs ! p) \<le> orderKey (vs ! ?r)" by (simp add: cmpVnode_ge)
  moreover have "orderKey (vs ! ?r) \<le> orderKey (vs ! p)" using le p by (rule mono)
  ultimately have e: "orderKey (vs ! ?r) = orderKey (vs ! p)" by simp
  from nth_eq_iff_index_eq [OF d, of ?r p] lt p e show ?thesis by simp
qed

lemma Remove_search_found:
  assumes s: "sorted (map orderKey vs)" and d: "distinct (map orderKey vs)"
  shows "\<forall>i \<in> set js. i < length vs \<Longrightarrow>
     Remove_search vs (map ((!) vs) js) acc = Inr (acc @ js)"
proof (induction js arbitrary: acc)
  case Nil
  show ?case by simp
next
  case (Cons i js)
  have i: "i < length vs" using Cons.prems by simp
  have "Search (length vs) (\<lambda>j. cmpVnode (vs ! j) (vs ! i) \<ge> 0) = i"
    by (rule Remove_search_index [OF s d i])
  then show ?case using i Cons by simp
qed

lemma live_update_outside: "finite A \<Longrightarrow> d \<notin> A \<Longrightarrow> live (xs[d := x]) A = live xs A"
  unfolding live_def by (intro image_mset_cong) (metis finite_set_mset_mset_set nth_list_update_neq)

lemma live_insert: "finite A \<Longrightarrow> a \<notin> A \<Longrightarrow> live xs (insert a A) = add_mset (xs ! a) (live xs A)"
  by (simp add: live_def)

lemma Remove_swap_live:
  "sorted (rev ds) \<Longrightarrow> distinct ds \<Longrightarrow> \<forall>d \<in> set ds. d < length xs - i \<Longrightarrow>
   i + length ds \<le> length xs \<Longrightarrow>
   live (Remove_swap xs i ds) {0 ..< length xs - (i + length ds)}
     = live xs ({0 ..< length xs - i} - set ds)"
proof (induction ds arbitrary: xs i)
  case Nil
  show ?case by simp
next
  case (Cons d ds)
  let ?n = "length xs"
  let ?l = "?n - 1 - i"
  let ?xs = "xs[d := xs ! ?l]"
  have dlt: "d < ?n - i" using Cons.prems(3) by simp
  then have dl: "d \<le> ?l" by linarith
  have below: "\<forall>e \<in> set ds. e < d"
  proof
    fix e assume e: "e \<in> set ds"
    have "sorted (rev ds @ [d])" using Cons.prems(1) by simp
    with e have "e \<le> d" by (simp add: sorted_append)
    moreover have "e \<noteq> d" using e Cons.prems(2) by auto
    ultimately show "e < d" by simp
  qed
  have b2: "\<forall>e \<in> set ds. e < length ?xs - (i + 1)"
  proof
    fix e assume "e \<in> set ds"
    with below have "e < d" by simp
    with dlt show "e < length ?xs - (i + 1)" by simp
  qed
  have s2: "sorted (rev ds)" using Cons.prems(1) by (simp add: sorted_append)
  have d2: "distinct ds" using Cons.prems(2) by simp
  have l2: "i + 1 + length ds \<le> length ?xs" using Cons.prems(4) by simp
  have IH: "live (Remove_swap ?xs (i + 1) ds) {0 ..< ?n - (i + 1 + length ds)}
     = live ?xs ({0 ..< ?n - (i + 1)} - set ds)"
    using Cons.IH [OF s2 d2 b2 l2] by simp
  have fin: "finite ({0 ..< ?n - (i + 1)} - set ds)" by simp
  have "live ?xs ({0 ..< ?n - (i + 1)} - set ds) = live xs ({0 ..< ?n - i} - set (d # ds))"
  proof (cases "d = ?l")
    case True
    then have "?xs = xs" by simp
    moreover have "{0 ..< ?n - (i + 1)} - set ds = {0 ..< ?n - i} - set (d # ds)"
      using True Cons.prems(3) by auto
    ultimately show ?thesis by simp
  next
    case False
    then have lt: "d < ?l" using dl by simp
    let ?B = "{0 ..< ?n - (i + 1)} - set (d # ds)"
    have finB: "finite ?B" by simp
    have A: "{0 ..< ?n - (i + 1)} - set ds = insert d ?B"
      using lt below by auto
    have C: "{0 ..< ?n - i} - set (d # ds) = insert ?l ?B"
      using lt below Cons.prems(3) by auto
    have dn: "d < ?n" using lt by simp
    have "live ?xs (insert d ?B) = add_mset (?xs ! d) (live ?xs ?B)"
      by (intro live_insert finB) simp
    also have "\<dots> = add_mset (xs ! ?l) (live xs ?B)"
      using dn by (simp add: live_update_outside)
    also have "\<dots> = live xs (insert ?l ?B)"
      by (intro live_insert [symmetric] finB) simp
    finally show ?thesis by (simp only: A C)
  qed
  with IH show ?case by simp
qed

lemma live_upt: "n \<le> length xs \<Longrightarrow> live xs {0 ..< n} = mset (take n xs)"
proof (induction n)
  case 0
  show ?case by (simp add: live_def)
next
  case (Suc n)
  have "{0 ..< Suc n} = insert n {0 ..< n}" by auto
  then have "live xs {0 ..< Suc n} = add_mset (xs ! n) (live xs {0 ..< n})"
    by (simp add: live_def)
  with Suc show ?case by (simp add: take_Suc_conv_app_nth)
qed

lemma live_all: "live xs {0 ..< length xs} = mset xs"
  using live_upt [of "length xs" xs] by simp

lemma live_union:
  "finite A \<Longrightarrow> finite B \<Longrightarrow> A \<inter> B = {} \<Longrightarrow> live xs (A \<union> B) = live xs A + live xs B"
  by (simp add: live_def mset_set_Union)

lemma live_indexes:
  "distinct js \<Longrightarrow> live xs (set js) = mset (map ((!) xs) js)"
  by (simp add: live_def mset_set_set)

lemma in_set_indexes:
  "set ws \<subseteq> set vs \<Longrightarrow> \<exists>js. ws = map ((!) vs) js \<and> (\<forall>i \<in> set js. i < length vs)"
proof (induction ws)
  case Nil
  show ?case by simp
next
  case (Cons w ws)
  then obtain js where js: "ws = map ((!) vs) js" "\<forall>i \<in> set js. i < length vs" by auto
  from Cons.prems obtain i where i: "i < length vs" "vs ! i = w" by (auto simp: in_set_conv_nth)
  have "w # ws = map ((!) vs) (i # js) \<and> (\<forall>j \<in> set (i # js). j < length vs)"
    using js i by simp
  then show ?case by (intro exI [of _ "i # js"])
qed

lemma Remove_vnodes:
  assumes s: "sorted (map orderKey vs)" and d: "distinct (map orderKey vs)"
    and sub: "set ws \<subseteq> set vs" and dw: "distinct ws"
  shows "\<exists>js. Remove_search vs ws [] = Inr js \<and> length js = length ws
     \<and> (length js \<le> length vs \<longrightarrow>
         SortFunc (take (length vs - length js) (Remove_swap vs 0 (rev (sort js)))) cmpVnode
           = filter (\<lambda>v. v \<notin> set ws) vs)"
proof -
  from in_set_indexes [OF sub] obtain js
    where js: "ws = map ((!) vs) js" and bound: "\<forall>i \<in> set js. i < length vs" by blast
  have dis: "distinct js" using dw js by (simp add: distinct_map)
  have found: "Remove_search vs ws [] = Inr js"
    using Remove_search_found [OF s d bound, of "[]"] js by simp
  have dvs: "distinct vs" using d by (simp add: distinct_map)
  have "SortFunc (take (length vs - length js) (Remove_swap vs 0 (rev (sort js)))) cmpVnode
           = filter (\<lambda>v. v \<notin> set ws) vs" if le: "length js \<le> length vs"
  proof -
    let ?ds = "rev (sort js)"
    let ?n = "length vs"
    let ?T = "take (?n - length js) (Remove_swap vs 0 ?ds)"
    let ?F = "filter (\<lambda>v. v \<notin> set ws) vs"
    have "live (Remove_swap vs 0 ?ds) {0 ..< ?n - (0 + length ?ds)} = live vs ({0 ..< ?n - 0} - set ?ds)"
      using dis bound le by (intro Remove_swap_live) simp_all
    then have a: "live (Remove_swap vs 0 ?ds) {0 ..< ?n - length js} = live vs ({0 ..< ?n} - set js)"
      by simp
    have "live (Remove_swap vs 0 ?ds) {0 ..< ?n - length js} = mset ?T"
      by (intro live_upt) (simp add: length_Remove_swap)
    with a have T: "mset ?T = live vs ({0 ..< ?n} - set js)" by simp
    have "{0 ..< ?n} = ({0 ..< ?n} - set js) \<union> set js" using bound by auto
    then have "live vs {0 ..< ?n} = live vs (({0 ..< ?n} - set js) \<union> set js)" by simp
    also have "\<dots> = live vs ({0 ..< ?n} - set js) + live vs (set js)"
      by (intro live_union) auto
    finally have e1: "mset vs = mset ?T + mset ws"
      by (simp add: live_all T live_indexes [OF dis] js)
    have e2: "mset vs = mset ?F + mset (filter (\<lambda>v. v \<in> set ws) vs)"
      by (induction vs) auto
    have e3: "mset (filter (\<lambda>v. v \<in> set ws) vs) = mset ws"
    proof -
      have "distinct (filter (\<lambda>v. v \<in> set ws) vs)" using dvs by simp
      moreover have "set (filter (\<lambda>v. v \<in> set ws) vs) = set ws" using sub by auto
      ultimately show ?thesis using dw by (metis set_eq_iff_mset_eq_distinct)
    qed
    have "mset ?F + mset ws = mset ?T + mset ws"
      using e1 e2 e3 by metis
    then have FT: "mset ?F = mset ?T"
      by (simp only: add_right_cancel)
    have sF: "sorted (map orderKey ?F)" using s by (simp add: sorted_map sorted_wrt_filter)
    have setT: "set ?T = set ?F" using FT by (metis set_mset_mset)
    have inj: "inj_on orderKey (set ?T)"
      using d unfolding setT by (auto simp: distinct_map intro: inj_on_subset)
    have dT: "distinct ?T" using FT dvs by (metis distinct_filter mset_eq_imp_distinct_iff)
    from SortFunc_unique [OF FT sF inj dT] show ?thesis by simp
  qed
  with found js show ?thesis by auto
qed

lemma Remove_exact:
  assumes ok: "ring_ok h" and look: "Mapping.lookup (nodes h) (Key m) = Some r"
  shows "Remove h m =
     (h\<lparr>virtualNodes := filter (\<lambda>v. nodeKey (members v) \<noteq> Key m) (virtualNodes h),
        nodes := Mapping.delete (Key m) (nodes h)\<rparr>, None)"
proof -
  let ?vs = "virtualNodes h" and ?ws = "nr_virtualNodes r"
  have inv: "ring_inv h" using ok by (simp add: ring_ok_def)
  have s: "sorted (map orderKey ?vs)" using inv by (simp add: ring_inv_def)
  have d: "distinct (map orderKey ?vs)" using ok by (simp add: ring_ok_def)
  have dw: "distinct ?ws" and setw: "set ?ws = {v \<in> set ?vs. nodeKey (members v) = Key m}"
    using ok look by (auto simp: ring_ok_def)
  have sub: "set ?ws \<subseteq> set ?vs" using setw by auto
  have lw: "length ?ws = unat (replicationFactor h)" using inv look by (simp add: ring_inv_def)
  have inkeys: "Key m \<in> Mapping.keys (nodes h)"
    using look by (simp add: keys_dom_lookup domIff)
  have fin: "finite (Mapping.keys (nodes h))" using inv by (simp add: ring_inv_def)
  have "Mapping.size (nodes h) \<ge> 1"
    using inkeys fin by (metis Mapping.size_def One_nat_def Suc_leI card_gt_0_iff empty_iff)
  then have big: "unat (replicationFactor h) \<le> length ?vs"
    using inv by (simp add: ring_inv_def)
  from Remove_vnodes [OF s d sub dw] obtain js where
    found: "Remove_search ?vs ?ws [] = Inr js" and lj: "length js = length ?ws"
    and sorted: "length js \<le> length ?vs \<longrightarrow>
      SortFunc (take (length ?vs - length js) (Remove_swap ?vs 0 (rev (sort js)))) cmpVnode
           = filter (\<lambda>v. v \<notin> set ?ws) ?vs"
    by blast
  have f: "filter (\<lambda>v. v \<notin> set ?ws) ?vs = filter (\<lambda>v. nodeKey (members v) \<noteq> Key m) ?vs"
    using setw by (intro filter_cong) auto
  show ?thesis
    using look found lj lw big sorted f
    by (simp add: Remove_def Let_def length_Remove_swap)
qed

lemma Remove_ok:
  assumes ok: "ring_ok h"
  shows "ring_ok (fst (Remove h m))"
proof (cases "Mapping.lookup (nodes h) (Key m)")
  case None
  with ok show ?thesis by (simp add: Remove_def)
next
  case (Some r)
  let ?h = "fst (Remove h m)"
  have inv': "ring_inv ?h" using ok Remove_inv_cases [of h m] by (simp add: ring_ok_def)
  have vs: "virtualNodes ?h = filter (\<lambda>v. nodeKey (members v) \<noteq> Key m) (virtualNodes h)"
    and ns: "nodes ?h = Mapping.delete (Key m) (nodes h)"
    by (simp_all add: Remove_exact [OF ok Some])
  have d: "distinct (map orderKey (virtualNodes ?h))"
    using ok by (simp add: vs ring_ok_def distinct_map_filter)
  have recs: "distinct (nr_virtualNodes r')
           \<and> set (nr_virtualNodes r') = {v \<in> set (virtualNodes ?h). nodeKey (members v) = k}"
    if "Mapping.lookup (nodes ?h) k = Some r'" for k r'
  proof -
    from that have ne: "k \<noteq> Key m" unfolding ns by (metis lookup_delete option.distinct(1))
    with that have "Mapping.lookup (nodes h) k = Some r'" by (simp add: ns)
    with ok have "distinct (nr_virtualNodes r')"
      and "set (nr_virtualNodes r') = {v \<in> set (virtualNodes h). nodeKey (members v) = k}"
      by (auto simp: ring_ok_def)
    with ne show ?thesis by (auto simp: vs)
  qed
  have keys: "\<forall>v \<in> set (virtualNodes ?h). nodeKey (members v) \<in> Mapping.keys (nodes ?h)"
    using ok by (auto simp: vs ns ring_ok_def)
  show ?thesis
    unfolding ring_ok_def using inv' d recs keys by blast
qed

lemma memberVnodes_length: "length (memberVnodes hf rf m) = unat rf"
  by (simp add: memberVnodes_def Add_loop_length)

lemma memberVnodes_hash:
  "k < unat rf \<Longrightarrow> hashvalue (memberVnodes hf rf m ! k)
     = hf (le_bytes 8 (unat (hf (bytes_of (Key m)))) @ le_bytes 2 k)"
proof -
  assume k: "k < unat rf"
  let ?buf = "PutUint64 (replicate 10 0) (hf (bytes_of (Key m)))"
  have lb: "length ?buf = 10" by (simp add: PutUint64_def)
  have tb: "take 8 ?buf = le_bytes 8 (unat (hf (bytes_of (Key m))))"
    by (simp add: PutUint64_le le_bytes_def)
  have "hashvalue (memberVnodes hf rf m ! k) = hf (take 8 ?buf @ le_bytes 2 (unat (0 :: 16 word) + k))"
    unfolding memberVnodes_def using k by (intro Add_loop_hash lb) simp
  then show ?thesis by (simp add: tb)
qed

lemma memberVnodes_distinct:
  assumes "vnodeHashesDistinct hf rf"
  shows "distinct (map hashvalue (memberVnodes hf rf m))"
proof -
  have inj: "inj_on (\<lambda>i. hf (le_bytes 8 (unat (hf (bytes_of (Key m)))) @ le_bytes 2 i)) {..< unat rf}"
    using assms by (simp add: vnodeHashesDistinct_def)
  show ?thesis
  proof (subst distinct_conv_nth, intro allI impI)
    fix i j assume i: "i < length (map hashvalue (memberVnodes hf rf m))"
      and j: "j < length (map hashvalue (memberVnodes hf rf m))" and ne: "i \<noteq> j"
    then have i': "i < unat rf" and j': "j < unat rf" by (simp_all add: memberVnodes_length)
    have "hf (le_bytes 8 (unat (hf (bytes_of (Key m)))) @ le_bytes 2 i)
        \<noteq> hf (le_bytes 8 (unat (hf (bytes_of (Key m)))) @ le_bytes 2 j)"
      using inj i' j' ne by (auto dest: inj_onD)
    then show "map hashvalue (memberVnodes hf rf m) ! i \<noteq> map hashvalue (memberVnodes hf rf m) ! j"
      using i' j' by (simp add: memberVnodes_length memberVnodes_hash)
  qed
qed

lemma Add_ok:
  assumes ok: "ring_ok h" and hd: "vnodeHashesDistinct (hashfn h) (replicationFactor h)"
  shows "ring_ok (fst (Add h m))"
proof (cases "Mapping.lookup (nodes h) (Key m) = None")
  case False
  then have "fst (Add h m) = h" by (simp add: Add_def Let_def)
  with ok show ?thesis by simp
next
  case True
  let ?h = "fst (Add h m)"
  let ?W = "memberVnodes (hashfn h) (replicationFactor h) m"
  let ?L = "Add_loop (hashfn h) (replicationFactor h) 0
            (PutUint64 (replicate 10 0) (hashfn h (bytes_of (Key m))))
            (NodeRecord (hashfn h (bytes_of (Key m))) (Key m) m []) []"
  have W: "?W = snd ?L" by (simp add: memberVnodes_def)
  have vs: "virtualNodes ?h = SortFunc (virtualNodes h @ ?W) cmpVnode"
    and ns: "nodes ?h = Mapping.update (Key m) (fst ?L) (nodes h)"
    by (simp_all add: Add_success [OF True] W)
  have rec: "nr_virtualNodes (fst ?L) = ?W" by (simp add: Add_loop_record W)
  have inv': "ring_inv ?h" using ok by (intro Add_inv) (simp add: ring_ok_def)
  have notin: "Key m \<notin> Mapping.keys (nodes h)"
    using True by (simp add: keys_dom_lookup domIff)
  have keyW: "\<forall>w \<in> set ?W. nodeKey (members w) = Key m"
    by (auto dest: memberVnodes_key)
  have keyV: "\<forall>v \<in> set (virtualNodes h). nodeKey (members v) \<in> Mapping.keys (nodes h)"
    using ok by (simp add: ring_ok_def)
  have dh: "distinct (map hashvalue ?W)" by (rule memberVnodes_distinct [OF hd])
  then have dW: "distinct ?W" by (simp add: distinct_map)
  have "inj_on orderKey (set ?W)"
  proof (rule inj_onI)
    fix x y assume "x \<in> set ?W" "y \<in> set ?W" "orderKey x = orderKey y"
    then have "hashvalue x = hashvalue y" by (simp add: orderKey_def)
    with dh \<open>x \<in> set ?W\<close> \<open>y \<in> set ?W\<close> show "x = y"
      by (auto simp: distinct_map dest: inj_onD)
  qed
  with dW have dkW: "distinct (map orderKey ?W)" by (simp add: distinct_map)
  have disj: "orderKey ` set (virtualNodes h) \<inter> orderKey ` set ?W = {}"
  proof (rule ccontr)
    assume "\<not> ?thesis"
    then obtain x where "x \<in> orderKey ` set (virtualNodes h)" "x \<in> orderKey ` set ?W"
      by blast
    then obtain v w where v: "v \<in> set (virtualNodes h)" and w: "w \<in> set ?W"
      and e: "orderKey v = orderKey w" by (metis imageE)
    from e have "nodeKey (members v) = nodeKey (members w)" by (simp add: orderKey_def)
    with keyW w have "nodeKey (members v) = Key m" by simp
    with keyV v notin show False by auto
  qed
  have "distinct (map orderKey (virtualNodes h @ ?W))"
    using ok dkW disj by (simp add: ring_ok_def)
  moreover have "mset (map orderKey (virtualNodes ?h)) = mset (map orderKey (virtualNodes h @ ?W))"
    by (simp only: vs mset_map mset_SortFunc)
  ultimately have d: "distinct (map orderKey (virtualNodes ?h))"
    by (metis mset_eq_imp_distinct_iff)
  have setv: "set (virtualNodes ?h) = set (virtualNodes h) \<union> set ?W"
    by (simp add: vs set_SortFunc)
  have recs: "distinct (nr_virtualNodes r')
           \<and> set (nr_virtualNodes r') = {v \<in> set (virtualNodes ?h). nodeKey (members v) = k}"
    if l: "Mapping.lookup (nodes ?h) k = Some r'" for k r'
  proof (cases "k = Key m")
    case True
    with l have "r' = fst ?L" by (simp add: ns)
    then have r': "nr_virtualNodes r' = ?W" by (simp add: rec)
    have "set ?W = {v \<in> set (virtualNodes ?h). nodeKey (members v) = Key m}"
      using keyW keyV notin by (auto simp: setv)
    with r' dW True show ?thesis by simp
  next
    case False
    with l have "Mapping.lookup (nodes h) k = Some r'" by (simp add: ns)
    with ok have "distinct (nr_virtualNodes r')"
      and "set (nr_virtualNodes r') = {v \<in> set (virtualNodes h). nodeKey (members v) = k}"
      by (auto simp: ring_ok_def)
    with False keyW show ?thesis by (auto simp: setv)
  qed
  have keys: "\<forall>v \<in> set (virtualNodes ?h). nodeKey (members v) \<in> Mapping.keys (nodes ?h)"
    using keyW keyV by (auto simp: setv ns)
  show ?thesis
    unfolding ring_ok_def using inv' d recs keys by blast
qed

lemma hashfn_step: "hashfn (fst (step h c)) = hashfn h"
  by (cases c) (simp_all add: Add_def Remove_def Let_def split: prod.splits option.splits sum.splits)

lemma run_ok:
  "ring_ok h \<Longrightarrow> vnodeHashesDistinct (hashfn h) (replicationFactor h) \<Longrightarrow> ring_ok (run h cs)"
  unfolding run_def
proof (induction cs arbitrary: h)
  case Nil
  then show ?case by simp
next
  case (Cons c cs)
  have "ring_ok (fst (step h c))"
    using Cons.prems by (cases c) (simp_all add: Add_ok Remove_ok)
  moreover have "vnodeHashesDistinct (hashfn (fst (step h c))) (replicationFactor (fst (step h c)))"
    using Cons.prems(2) by (simp add: hashfn_step replicationFactor_step)
  ultimately show ?case using Cons.IH by simp
qed

lemma New_ok: "New hf rf = Inr h \<Longrightarrow> ring_ok h"
proof -
  assume a: "New hf rf = Inr h"
  then have "ring_inv h" by (rule New_inv)
  moreover from a have "virtualNodes h = []" "nodes h = Mapping.empty"
    by (auto simp: New_def split: if_splits)
  ultimately show ?thesis by (simp add: ring_ok_def)
qed

lemma New_hashfn: "New hf rf = Inr h \<Longrightarrow> hashfn h = hf"
  by (auto simp: New_def split: if_splits)

lemma Remove_exact_when_hashes_distinct:
  assumes "New hf rf = Inr h0" and "vnodeHashesDistinct hf rf"
    and "Mapping.lookup (nodes (run h0 cs)) (Key m) = Some r"
  shows "Remove (run h0 cs) m =
     ((run h0 cs)\<lparr>virtualNodes :=
          filter (\<lambda>v. nodeKey (members v) \<noteq> Key m) (virtualNodes (run h0 cs)),
        nodes := Mapping.delete (Key m) (nodes (run h0 cs))\<rparr>, None)"
proof -
  have "ring_ok (run h0 cs)"
    using assms(1,2) by (intro run_ok New_ok) (simp_all add: New_hashfn New_replicationFactor)
  then show ?thesis using assms(3) by (rule Remove_exact)
qed

lemma FindN_count_when_hashes_distinct:
  assumes "New hf rf = Inr h0" and "vnodeHashesDistinct hf rf"
    and "unat num \<le> Mapping.size (nodes (run h0 cs))"
  shows "\<exists>ms. FindN (run h0 cs) key num = Inr ms \<and> length ms = unat num"
proof -
  let ?h = "run h0 cs"
  have ok: "ring_ok ?h"
    using assms(1,2) by (intro run_ok New_ok) (simp_all add: New_hashfn New_replicationFactor)
  then have inv: "ring_inv ?h" by (simp add: ring_ok_def)
  have fin: "finite (Mapping.keys (nodes ?h))" using inv by (simp add: ring_inv_def)
  have "Mapping.keys (nodes ?h) \<subseteq> (\<lambda>v. nodeKey (members v)) ` set (virtualNodes ?h)"
  proof
    fix k assume "k \<in> Mapping.keys (nodes ?h)"
    then obtain r where r: "Mapping.lookup (nodes ?h) k = Some r" by (auto dest: in_keysD)
    with inv have "length (nr_virtualNodes r) = unat (replicationFactor ?h)"
      and "1 \<le> unat (replicationFactor ?h)" by (simp_all add: ring_inv_def)
    then have "nr_virtualNodes r \<noteq> []" by auto
    then obtain v where v: "v \<in> set (nr_virtualNodes r)" by (cases "nr_virtualNodes r") auto
    from ok r have "set (nr_virtualNodes r) = {v \<in> set (virtualNodes ?h). nodeKey (members v) = k}"
      by (auto simp: ring_ok_def)
    with v show "k \<in> (\<lambda>v. nodeKey (members v)) ` set (virtualNodes ?h)" by auto
  qed
  with fin assms(3) show ?thesis by (intro FindN_count)
qed

text \<open>The polynomial hash of the examples is such a hash function for two virtual nodes.\<close>

lemma polyHash_append2: "polyHash (xs @ [a, b]) = (polyHash xs * 31 + ucast a) * 31 + ucast b"
  by (simp add: polyHash_def)

lemma polyHash_hashes_distinct: "vnodeHashesDistinct polyHash 2"
proof -
  have l0: "le_bytes 2 0 = [0, 0]" and l1: "le_bytes 2 (Suc 0) = [1, 0]"
    by (simp_all add: le_bytes_def upt_rec)
  have two: "{..< unat (2 :: 16 word)} = {0, Suc 0}" by auto
  have ne: "(h * 31 + 0) * 31 + 0 \<noteq> (h * 31 + 1) * 31 + (0 :: 64 word)" for h
    by simp
  show ?thesis
    unfolding vnodeHashesDistinct_def two
    using ne by (auto simp: inj_on_def polyHash_append2 l0 l1)
qed

section \<open>Lemmas about the balancer\<close>





lemma sint_min_iff: "sint (w :: 64 word) = - (2 ^ 63) \<longleftrightarrow> w = 0x8000000000000000"
proof
  assume "sint w = - (2 ^ 63)"
  then have "sint w = sint (0x8000000000000000 :: 64 word)" by simp
  then show "w = 0x8000000000000000" by (rule signed_word_eqI)
next
  assume "w = 0x8000000000000000"
  then show "sint w = - (2 ^ 63)" by simp
qed

lemma go_rem_nonneg: "0 \<le> a \<Longrightarrow> 0 < b \<Longrightarrow> 0 \<le> go_rem a b \<and> go_rem a b < b"
  by (cases "a = 0") (simp_all add: go_rem_def sgn_if)

lemma intn_range:
  assumes "sum64 \<noteq> 0x8000000000000000" and "0 < n"
  shows "0 \<le> intn sum64 n \<and> intn sum64 n < uint n"
proof -
  have n: "0 < uint n" using assms(2) by (simp add: word_less_def)
  have ge: "- (2 ^ 63) \<le> sint sum64" using sint_ge [of sum64] by simp
  have lt: "sint sum64 < 2 ^ 63" using sint_lt [of sum64] by simp
  have ne: "sint sum64 \<noteq> - (2 ^ 63)" using assms(1) sint_min_iff [of sum64] by simp
  show ?thesis
  proof (cases "sint sum64 < 0")
    case True
    have "sint (- sum64) = signed_take_bit 63 (- sint sum64)"
      using sint_word_minus [of sum64] by simp
    also have "\<dots> = - sint sum64"
      using ge lt ne True by (intro signed_take_bit_int_eq_self) simp_all
    finally have "sint (- sum64) = - sint sum64" .
    with True n go_rem_nonneg [of "- sint sum64" "uint n"] show ?thesis
      by (simp add: intn_def Let_def)
  next
    case False
    with n go_rem_nonneg [of "sint sum64" "uint n"] show ?thesis
      by (simp add: intn_def Let_def)
  qed
qed

lemma Pick_FindN_error:
  "FindN hr key spread = Inl e \<Longrightarrow> Pick hr spread sum64 (Some key) = Inl (RingError e)"
  by (simp add: Pick_def)

lemma Pick_selects:
  assumes "FindN hr key spread = Inr ms" and "length ms = unat spread" and "0 < spread"
    and "sum64 \<noteq> 0x8000000000000000"
  shows "Pick hr spread sum64 (Some key)
     = Inr (val (ms ! (if spread > 1 then nat (intn sum64 spread) else 0)))"
proof (cases "spread > 1")
  case True
  from intn_range [OF assms(4,3)]
  have r: "0 \<le> intn sum64 spread" "intn sum64 spread < uint spread" by simp_all
  then have "nat (intn sum64 spread) < unat spread"
    by (simp add: nat_less_iff)
  with True r assms(1,2) show ?thesis by (simp add: Pick_def Let_def)
next
  case False
  have "0 < unat spread" using assms(3) by (simp add: word_less_nat_alt)
  with False assms(1,2) show ?thesis by (simp add: Pick_def Let_def)
qed

section \<open>The claims\<close>

text \<open>
  Claim C1. \<open>FindN(key, N)\<close> returns \<open>ErrNotEnoughMembers\<close> exactly when
  \<open>N > |nodes|\<close>; otherwise it walks the ring from the first virtual node whose hash is
  at least the hash of the key and returns the first \<open>N\<close> distinct owners in walk order,
  and with \<open>N \<le> |nodes|\<close> the result always has exactly \<open>N\<close> members.

  The walk is as claimed (lemmas \<open>FindN_walk\<close> and \<open>FindN_start_index\<close>), and the
  result has \<open>N\<close> members on a ring in which every key of \<open>nodes\<close> owns a virtual node
  (lemma \<open>FindN_count\<close>); every ring built with a hash function that gives the virtual
  nodes of each member different hashes is such a ring (lemma
  \<open>FindN_count_when_hashes_distinct\<close>). But \<open>Remove\<close> can leave a ring in which this is
  not so (see claim C2). On the ring below, built by six calls of \<open>Add\<close> and \<open>Remove\<close>
  that all return no error, with a hash function that gives the two virtual nodes of a
  member the same hash, \<open>nodes\<close> has two keys, all four virtual nodes are owned by \<open>a\<close>,
  and \<open>FindN\<close> with \<open>N = 2\<close> returns one member and no error.
\<close>

theorem FindN_returns_fewer_members:
  "New firstByteHash 2 = Inr collidingRing
   \<and> runErrors collidingRing [CallAdd (Member ''a'' 0), CallAdd (Member ''b'' 1),
        CallRemove (Member ''a'' 0), CallAdd (Member ''a'' 0), CallRemove (Member ''a'' 0),
        CallAdd (Member ''a'' 0)] = [None, None, None, None, None, None]
   \<and> Mapping.size (nodes (run collidingRing [CallAdd (Member ''a'' 0), CallAdd (Member ''b'' 1),
        CallRemove (Member ''a'' 0), CallAdd (Member ''a'' 0), CallRemove (Member ''a'' 0),
        CallAdd (Member ''a'' 0)])) = 2
   \<and> map (\<lambda>v. (hashvalue v, nodeKey (members v))) (virtualNodes (run collidingRing [CallAdd (Member ''a'' 0), CallAdd (Member ''b'' 1),
        CallRemove (Member ''a'' 0), CallAdd (Member ''a'' 0), CallRemove (Member ''a'' 0),
        CallAdd (Member ''a'' 0)]))
       = [(97, ''a''), (97, ''a''), (97, ''a''), (97, ''a'')]
   \<and> FindN (run collidingRing [CallAdd (Member ''a'' 0), CallAdd (Member ''b'' 1),
        CallRemove (Member ''a'' 0), CallAdd (Member ''a'' 0), CallRemove (Member ''a'' 0),
        CallAdd (Member ''a'' 0)]) (bytes_of ''key'') 2 = Inr [Member ''a'' 0]"
proof -
  have h: "New firstByteHash 2 = Inr collidingRing"
    by (simp add: New_def collidingRing_def)
  have "runErrors collidingRing [CallAdd (Member ''a'' 0), CallAdd (Member ''b'' 1),
        CallRemove (Member ''a'' 0), CallAdd (Member ''a'' 0), CallRemove (Member ''a'' 0),
        CallAdd (Member ''a'' 0)] = [None, None, None, None, None, None]
   \<and> Mapping.size (nodes (run collidingRing [CallAdd (Member ''a'' 0), CallAdd (Member ''b'' 1),
        CallRemove (Member ''a'' 0), CallAdd (Member ''a'' 0), CallRemove (Member ''a'' 0),
        CallAdd (Member ''a'' 0)])) = 2
   \<and> map (\<lambda>v. (hashvalue v, nodeKey (members v))) (virtualNodes (run collidingRing [CallAdd (Member ''a'' 0), CallAdd (Member ''b'' 1),
        CallRemove (Member ''a'' 0), CallAdd (Member ''a'' 0), CallRemove (Member ''a'' 0),
        CallAdd (Member ''a'' 0)]))
       = [(97, ''a''), (97, ''a''), (97, ''a''), (97, ''a'')]
   \<and> FindN (run collidingRing [CallAdd (Member ''a'' 0), CallAdd (Member ''b'' 1),
        CallRemove (Member ''a'' 0), CallAdd (Member ''a'' 0), CallRemove (Member ''a'' 0),
        CallAdd (Member ''a'' 0)]) (bytes_of ''key'') 2 = Inr [Member ''a'' 0]"
    by code_simp
  with h show ?thesis by simp
qed

text \<open>
  Claim C2. \<open>Remove(member)\<close> returns \<open>ErrMemberNotFound\<close> when the key is absent, and
  it is atomic: either all \<open>R\<close> virtual nodes of the member are removed and the key is
  deleted, or an error is returned and the ring is as it was.

  The error cases are as claimed (lemmas \<open>Remove_not_found\<close> and
  \<open>Remove_error_unchanged\<close>), and so is the success case on a ring built with a hash
  function that gives the virtual nodes of each member different hashes (lemma
  \<open>Remove_exact_when_hashes_distinct\<close>). In general the success case is not: when two virtual nodes of the
  member compare equal (same hash), the binary search finds the same index for both, the
  index is overwritten twice, and the cut at the end drops a virtual node of another
  member. Below, \<open>Remove\<close> of member \<open>a\<close> returns no error and deletes the key, and the
  ring is left with one virtual node of \<open>a\<close> and only one of the two virtual nodes of
  \<open>b\<close>.
\<close>

theorem Remove_leaves_vnode_of_removed_member:
  "New firstByteHash 2 = Inr collidingRing
   \<and> map (\<lambda>v. (hashvalue v, nodeKey (members v)))
        (virtualNodes (run collidingRing [CallAdd (Member ''a'' 0), CallAdd (Member ''b'' 1)]))
       = [(97, ''a''), (97, ''a''), (98, ''b''), (98, ''b'')]
   \<and> snd (Remove (run collidingRing [CallAdd (Member ''a'' 0), CallAdd (Member ''b'' 1)])
          (Member ''a'' 0)) = None
   \<and> map (\<lambda>v. (hashvalue v, nodeKey (members v)))
        (virtualNodes (fst (Remove (run collidingRing [CallAdd (Member ''a'' 0),
           CallAdd (Member ''b'' 1)]) (Member ''a'' 0))))
       = [(97, ''a''), (98, ''b'')]
   \<and> Mapping.lookup (nodes (fst (Remove (run collidingRing [CallAdd (Member ''a'' 0),
           CallAdd (Member ''b'' 1)]) (Member ''a'' 0)))) ''a'' = None"
proof -
  have h: "New firstByteHash 2 = Inr collidingRing"
    by (simp add: New_def collidingRing_def)
  have "map (\<lambda>v. (hashvalue v, nodeKey (members v)))
        (virtualNodes (run collidingRing [CallAdd (Member ''a'' 0), CallAdd (Member ''b'' 1)]))
       = [(97, ''a''), (97, ''a''), (98, ''b''), (98, ''b'')]
   \<and> snd (Remove (run collidingRing [CallAdd (Member ''a'' 0), CallAdd (Member ''b'' 1)])
          (Member ''a'' 0)) = None
   \<and> map (\<lambda>v. (hashvalue v, nodeKey (members v)))
        (virtualNodes (fst (Remove (run collidingRing [CallAdd (Member ''a'' 0),
           CallAdd (Member ''b'' 1)]) (Member ''a'' 0))))
       = [(97, ''a''), (98, ''b'')]
   \<and> Mapping.lookup (nodes (fst (Remove (run collidingRing [CallAdd (Member ''a'' 0),
           CallAdd (Member ''b'' 1)]) (Member ''a'' 0)))) ''a'' = None"
    by code_simp
  with h show ?thesis by simp
qed

text \<open>
  Claim C3. For every ring created by \<open>New(hashfn, R)\<close> and every sequence of \<open>Add\<close>
  and \<open>Remove\<close> calls, whether each call succeeds or returns an error, the ring after the
  calls has \<open>|vnodes| = |nodes| * R\<close>, and its virtual nodes are sorted by the hash of the
  virtual node, then the hash of the owner's key, then the owner's key in lexicographic
  byte order. Every prefix of a sequence of calls is a sequence of calls, so this holds
  after each call.
\<close>

theorem ring_invariants_after_calls:
  assumes "New hf rf = Inr h0"
  shows "length (virtualNodes (run h0 cs)) = Mapping.size (nodes (run h0 cs)) * unat rf
     \<and> sorted (map orderKey (virtualNodes (run h0 cs)))
     \<and> replicationFactor (run h0 cs) = rf"
proof -
  have inv: "ring_inv (run h0 cs)"
    using assms by (intro run_inv New_inv)
  have "replicationFactor (run h0 cs) = rf"
    using assms by (simp add: replicationFactor_run New_replicationFactor)
  with inv show ?thesis by (simp add: ring_inv_def)
qed

theorem ring_invariants_after_calls_witness:
  "New polyHash 2 = Inr exRing
   \<and> length (virtualNodes (run exRing [CallAdd (Member ''a'' 0), CallAdd (Member ''b'' 1),
         CallAdd (Member ''a'' 2), CallRemove (Member ''a'' 0), CallRemove (Member ''c'' 3)]))
       = Mapping.size (nodes (run exRing [CallAdd (Member ''a'' 0), CallAdd (Member ''b'' 1),
         CallAdd (Member ''a'' 2), CallRemove (Member ''a'' 0), CallRemove (Member ''c'' 3)]))
           * unat (2 :: 16 word)
   \<and> sorted (map orderKey (virtualNodes (run exRing [CallAdd (Member ''a'' 0),
         CallAdd (Member ''b'' 1), CallAdd (Member ''a'' 2), CallRemove (Member ''a'' 0),
         CallRemove (Member ''c'' 3)])))
   \<and> length (virtualNodes (run exRing [CallAdd (Member ''a'' 0), CallAdd (Member ''b'' 1),
         CallAdd (Member ''a'' 2), CallRemove (Member ''a'' 0), CallRemove (Member ''c'' 3)])) = 2"
proof -
  have h: "New polyHash 2 = Inr exRing"
    by (simp add: New_def exRing_def)
  have l: "length (virtualNodes (run exRing [CallAdd (Member ''a'' 0), CallAdd (Member ''b'' 1),
         CallAdd (Member ''a'' 2), CallRemove (Member ''a'' 0), CallRemove (Member ''c'' 3)])) = 2"
    by code_simp
  from ring_invariants_after_calls [OF h] h l show ?thesis by simp
qed

text \<open>
  Claim C4. For a member added with key \<open>K\<close> and \<open>keyHash = hashfn(K)\<close>, the hash of its
  \<open>i\<close>-th virtual node, for \<open>i\<close> in \<open>[0, R)\<close>, is \<open>hashfn\<close> of the 10-byte buffer whose
  bytes \<open>[0..8)\<close> hold \<open>keyHash\<close> and whose bytes \<open>[8..10)\<close> hold \<open>i\<close>, both
  little-endian. The virtual node is the \<open>i\<close>-th of the stored record and one of the
  virtual nodes of the ring.
\<close>

theorem Add_vnode_hash_encoding:
  assumes "Mapping.lookup (nodes h) (Key m) = None" and "i < unat (replicationFactor h)"
  shows "\<exists>r. Mapping.lookup (nodes (fst (Add h m))) (Key m) = Some r
     \<and> length (nr_virtualNodes r) = unat (replicationFactor h)
     \<and> nr_virtualNodes r ! i \<in> set (virtualNodes (fst (Add h m)))
     \<and> hashvalue (nr_virtualNodes r ! i)
         = hashfn h (le_bytes 8 (unat (hashfn h (bytes_of (Key m)))) @ le_bytes 2 i)"
proof -
  let ?kh = "hashfn h (bytes_of (Key m))"
  let ?buf = "PutUint64 (replicate 10 0) ?kh"
  let ?L = "Add_loop (hashfn h) (replicationFactor h) 0 ?buf (NodeRecord ?kh (Key m) m []) []"
  have lb: "length ?buf = 10" by (simp add: PutUint64_def)
  have tb: "take 8 ?buf = le_bytes 8 (unat ?kh)"
    by (simp add: PutUint64_le le_bytes_def)
  have rec: "nr_virtualNodes (fst ?L) = snd ?L"
    by (simp add: Add_loop_record)
  have len: "length (snd ?L) = unat (replicationFactor h)"
    by (simp add: Add_loop_length)
  have hash: "hashvalue (snd ?L ! i) = hashfn h (take 8 ?buf @ le_bytes 2 (unat (0 :: 16 word) + i))"
    using assms(2) by (intro Add_loop_hash lb) simp
  have mem: "snd ?L ! i \<in> set (virtualNodes (fst (Add h m)))"
    using assms(2) len by (simp add: Add_success [OF assms(1)] set_SortFunc)
  have look: "Mapping.lookup (nodes (fst (Add h m))) (Key m) = Some (fst ?L)"
    by (simp add: Add_success [OF assms(1)])
  show ?thesis
    using look rec len hash mem tb by simp
qed

theorem Add_vnode_hash_encoding_witness:
  "Mapping.lookup (nodes exRing) (Key (Member ''a'' 0)) = None
   \<and> (1 :: nat) < unat (replicationFactor exRing)
   \<and> map_option (\<lambda>r. hashvalue (nr_virtualNodes r ! 1))
        (Mapping.lookup (nodes (fst (Add exRing (Member ''a'' 0)))) ''a'')
       = Some (polyHash (le_bytes 8 (unat (polyHash (bytes_of ''a''))) @ le_bytes 2 1))"
proof -
  have a: "Mapping.lookup (nodes exRing) (Key (Member ''a'' 0)) = None"
    by (simp add: exRing_def)
  have b: "(1 :: nat) < unat (replicationFactor exRing)"
    by (simp add: exRing_def)
  have c: "hashfn exRing = polyHash"
    by (simp add: exRing_def)
  from Add_vnode_hash_encoding [OF a b] a b c show ?thesis by auto
qed



text \<open>
  Claim C6. \<open>Pick\<close> asks the ring for \<open>FindN(key, s)\<close>, returns its error unchanged, and
  otherwise returns the sub-connection of element 0 when \<open>s = 1\<close> and of element
  \<open>intn(s)\<close>, a number in \<open>[0, s)\<close>, when \<open>s > 1\<close>.

  The error of \<open>FindN\<close> is returned (lemma \<open>Pick_FindN_error\<close>), and for every draw but
  one \<open>intn\<close> is in \<open>[0, n)\<close> and the member at that index is returned (lemmas
  \<open>intn_range\<close> and \<open>Pick_selects\<close>). The exception: the draw
  \<open>2^63\<close> is the least 64-bit integer, its negation is itself, and the remainder of a
  negative number is not positive. With spread 3 the index is \<open>-2\<close> and \<open>Pick\<close> panics,
  although \<open>FindN\<close> returned three members.
\<close>

theorem Pick_index_out_of_range:
  "FindN exPickRing (bytes_of ''test'') 3 = Inr [Member ''t1'' 0, Member ''t2'' 1, Member ''t3'' 2]
   \<and> intn 0x8000000000000000 3 = - 2
   \<and> Pick exPickRing 3 0x8000000000000000 (Some (bytes_of ''test''))
       = Inl (Panic ''index out of range'')"
  by code_simp

text \<open>
  Claim C7. In \<open>UpdateSubConnState\<close>, when the recorded state of a known sub-connection
  is \<open>TransientFailure\<close> and the new state is \<open>Idle\<close> or \<open>Connecting\<close>, the recorded
  states stay as they are, the evaluator, the aggregate state and the picker are untouched,
  nothing is published, and the only call made is \<open>sc.Connect()\<close> when the new state is
  \<open>Idle\<close>.
\<close>

theorem TransientFailure_transition_suppressed:
  assumes "scStates b sc = Some TransientFailure" and "s = Idle \<or> s = Connecting"
  shows "scStates (UpdateSubConnState rt b sc s connectionError) = scStates b
     \<and> scStates (UpdateSubConnState rt b sc s connectionError) sc = Some TransientFailure
     \<and> csEvltr (UpdateSubConnState rt b sc s connectionError) = csEvltr b
     \<and> state (UpdateSubConnState rt b sc s connectionError) = state b
     \<and> picker (UpdateSubConnState rt b sc s connectionError) = picker b
     \<and> calls (cc (UpdateSubConnState rt b sc s connectionError))
         = calls (cc b) @ (if s = Idle then [ConnectCalled sc] else [])"
  using assms by (auto simp: UpdateSubConnState_def called_def)

theorem TransientFailure_transition_suppressed_witness:
  "scStates exBalancerTF 0 = Some TransientFailure
   \<and> scStates (UpdateSubConnState RecordTransition exBalancerTF 0 Idle None) 0
       = Some TransientFailure
   \<and> csEvltr (UpdateSubConnState RecordTransition exBalancerTF 0 Idle None) = csEvltr exBalancerTF
   \<and> calls (cc (UpdateSubConnState RecordTransition exBalancerTF 0 Idle None))
       = calls (cc exBalancerTF) @ [ConnectCalled 0]"
proof -
  have a: "scStates exBalancerTF 0 = Some TransientFailure"
    by code_simp
  have b: "Idle = Idle \<or> Idle = Connecting"
    by simp
  from TransientFailure_transition_suppressed [OF a b, of RecordTransition None] a
  show ?thesis by simp
qed




text \<open>
  Claim C9. \<open>ResolverError(err)\<close> always stores \<open>err\<close>; when there is no backend it sets
  the aggregate state to \<open>TransientFailure\<close> and installs the error picker that joins the
  connection error and \<open>err\<close> (and publishes both); and whenever the aggregate state is
  not \<open>TransientFailure\<close> afterwards, no call is made on the runtime and the picker and
  the aggregate state are as before.
\<close>

theorem ResolverError_effect:
  "resolverErr (ResolverError b err) = err
   \<and> (subConns b = [] \<longrightarrow>
        state (ResolverError b err) = TransientFailure
        \<and> picker (ResolverError b err) = ErrPicker (errors_Join [connErr b, err])
        \<and> calls (cc (ResolverError b err))
            = calls (cc b) @ [UpdateStateCalled TransientFailure
                                (ErrPicker (errors_Join [connErr b, err]))])
   \<and> (state (ResolverError b err) \<noteq> TransientFailure \<longrightarrow>
        cc (ResolverError b err) = cc b
        \<and> picker (ResolverError b err) = picker b
        \<and> state (ResolverError b err) = state b)"
  by (auto simp: ResolverError_def publish_def called_def Let_def)

theorem ResolverError_effect_witness:
  "subConns exBalancer = []
   \<and> resolverErr (ResolverError exBalancer (Some (ErrorString ''dns''))) = Some (ErrorString ''dns'')
   \<and> state (ResolverError exBalancer (Some (ErrorString ''dns''))) = TransientFailure
   \<and> picker (ResolverError exBalancer (Some (ErrorString ''dns'')))
       = ErrPicker (Some (JoinError [ErrorString ''dns'']))
   \<and> state (ResolverError exBalancer1 (Some (ErrorString ''dns''))) \<noteq> TransientFailure
   \<and> calls (cc (ResolverError exBalancer1 (Some (ErrorString ''dns'')))) = calls (cc exBalancer1)
   \<and> picker (ResolverError exBalancer1 (Some (ErrorString ''dns''))) = picker exBalancer1"
proof -
  have a: "subConns exBalancer = []"
    by (simp add: exBalancer_def Build_def)
  have c: "connErr exBalancer = None"
    by (simp add: exBalancer_def Build_def)
  have b: "state (ResolverError exBalancer1 (Some (ErrorString ''dns''))) \<noteq> TransientFailure"
    by code_simp
  from ResolverError_effect [of exBalancer "Some (ErrorString ''dns'')"]
       ResolverError_effect [of exBalancer1 "Some (ErrorString ''dns'')"] a b c
  show ?thesis by (simp add: errors_Join_def List.map_filter_simps)
qed

text \<open>
  Claim C10. On every ring reachable from \<open>New\<close> by \<open>Add\<close> and \<open>Remove\<close> calls,
  \<open>Remove\<close> never returns \<open>ErrUnexpectedVnodeCount\<close>, and every stored record lists
  exactly \<open>R\<close> virtual nodes. Nor does \<open>Remove\<close> ever index the slice of virtual nodes
  out of range there.
\<close>

theorem Remove_never_unexpected_vnode_count:
  assumes "New hf rf = Inr h0"
  shows "snd (Remove (run h0 cs) m) \<noteq> Some ErrUnexpectedVnodeCount
     \<and> snd (Remove (run h0 cs) m) \<noteq> Some PanicIndexOutOfRange
     \<and> (\<forall>r. Mapping.lookup (nodes (run h0 cs)) k = Some r \<longrightarrow>
           length (nr_virtualNodes r) = unat rf)"
proof -
  have inv: "ring_inv (run h0 cs)"
    using assms by (intro run_inv New_inv)
  have "replicationFactor (run h0 cs) = rf"
    using assms by (simp add: replicationFactor_run New_replicationFactor)
  with inv Remove_inv_cases [OF inv, of m] show ?thesis by (simp add: ring_inv_def)
qed

theorem Remove_never_unexpected_vnode_count_witness:
  "New polyHash 2 = Inr exRing
   \<and> snd (Remove (run exRing [CallAdd (Member ''a'' 0), CallAdd (Member ''b'' 1)])
          (Member ''a'' 0)) = None
   \<and> map_option (\<lambda>r. length (nr_virtualNodes r))
        (Mapping.lookup (nodes (run exRing [CallAdd (Member ''a'' 0), CallAdd (Member ''b'' 1)]))
           ''b'')
       = Some (unat (2 :: 16 word))"
proof -
  have h: "New polyHash 2 = Inr exRing"
    by (simp add: New_def exRing_def)
  have a: "snd (Remove (run exRing [CallAdd (Member ''a'' 0), CallAdd (Member ''b'' 1)])
             (Member ''a'' 0)) = None"
    by code_simp
  have b: "Mapping.lookup (nodes (run exRing [CallAdd (Member ''a'' 0), CallAdd (Member ''b'' 1)]))
             ''b'' \<noteq> None"
    by code_simp
  from Remove_never_unexpected_vnode_count
         [OF h, of "[CallAdd (Member ''a'' 0), CallAdd (Member ''b'' 1)]" "Member ''a'' 0" "''b''"]
       h a b
  show ?thesis by auto
qed

end
